theory Spec2Isabelle
  imports Complex_Main "HOL-Library.Word"
begin

section \<open>Media upload pipeline: a shallow embedding\<close>

text \<open>
  The TypeScript sources modelled here are \<^verbatim>\<open>lib/storageMonitoring\<close>
  (\<^verbatim>\<open>getUserStorageUsage\<close>), \<^verbatim>\<open>lib/storageLimit\<close> (\<^verbatim>\<open>checkStorageLimit\<close>),
  \<^verbatim>\<open>lib/imageProcessor\<close> (\<^verbatim>\<open>compressImage\<close>) and \<^verbatim>\<open>lib/uploadImageToSupabase\<close>
  (\<^verbatim>\<open>validateImageFile\<close>, \<^verbatim>\<open>extractExtensionFromUri\<close>, \<^verbatim>\<open>getMimeType\<close>,
  \<^verbatim>\<open>uploadWithRetry\<close>, \<^verbatim>\<open>uploadImageToSupabase\<close>).

  Conventions. A JavaScript \<^verbatim>\<open>number\<close> that holds a byte count, a percentage or a
  progress value is a \<^typ>\<open>rat\<close>: all the byte counts that occur are integers or quarters
  of integers far below \<open>2 ^ 53\<close>, where double arithmetic is exact. The scale factor of
  \<^verbatim>\<open>compressImage\<close> and the dimensions computed from it are not of that kind; there
  the rounding of every double operation is written out. Strings are
  \<^typ>\<open>string\<close>, one character per code unit; only ASCII letters change under
  \<^verbatim>\<open>toLowerCase\<close>. A thrown
  exception is the \<open>Inl\<close> branch of a sum. External collaborators (the usage ledger,
  the image codec, the file system, the object store, the clock) are parameters of the
  functions that call them. Console logging is omitted. Human-readable messages that
  interpolate formatted numbers are datatype constructors carrying the numbers.
\<close>

section \<open>Usage ledger: \<^verbatim>\<open>getUserStorageUsage\<close>\<close>

text \<open>
  A ledger query resolves to an object \<^verbatim>\<open>{ data, error }\<close> or throws. A row carries its
  \<^verbatim>\<open>file_size\<close>, which may be null.
\<close>

datatype 'a query_result =
  Response (resp_data: "'a option") (resp_error: "string option")
  | Throws string

type_synonym file_row = "rat option"

record ledger =
  storage_images :: "string \<Rightarrow> file_row list query_result"
  tools :: "string \<Rightarrow> file_row list query_result"

text \<open>
  The field \<^verbatim>\<open>totalSize\<close> (the rendering of \<open>totalSizeBytes\<close> by \<^verbatim>\<open>formatBytes\<close>) is
  determined by \<open>totalSizeBytes\<close> and is not kept.
\<close>

record storage_usage =
  fileCount :: nat
  totalSizeBytes :: rat

text \<open>\<^verbatim>\<open>rows.reduce((sum, r) => sum + (r.file_size || 0), 0)\<close>\<close>

definition sumFileSizes :: "file_row list \<Rightarrow> rat" where
  "sumFileSizes rows =
     foldl (\<lambda>sum row. sum + (case row of None \<Rightarrow> 0 | Some s \<Rightarrow> s)) 0 rows"

text \<open>\<^verbatim>\<open>rows?.length || 0\<close> and \<^verbatim>\<open>rows?.reduce(...) || 0\<close>\<close>

definition countOrZero :: "file_row list option \<Rightarrow> nat" where
  "countOrZero rows = (case rows of None \<Rightarrow> 0 | Some rs \<Rightarrow> length rs)"

definition sizeOrZero :: "file_row list option \<Rightarrow> rat" where
  "sizeOrZero rows = (case rows of None \<Rightarrow> 0 | Some rs \<Rightarrow> sumFileSizes rs)"

definition getUserStorageUsage :: "ledger \<Rightarrow> string \<Rightarrow> storage_usage" where
  "getUserStorageUsage db userId =
     (case storage_images db userId of
        Throws _ \<Rightarrow> \<lparr>fileCount = 0, totalSizeBytes = 0\<rparr>
      | Response images imagesError \<Rightarrow>
          (case tools db userId of
             Throws _ \<Rightarrow> \<lparr>fileCount = 0, totalSizeBytes = 0\<rparr>
           | Response toolRows toolsError \<Rightarrow>
               \<lparr>fileCount = countOrZero images + countOrZero toolRows,
                totalSizeBytes = sizeOrZero images + sizeOrZero toolRows\<rparr>))"

text \<open>
  A query has failed when it threw, or resolved with an error and no data (the way the
  database client reports a failed request).
\<close>

definition queryFailed :: "'a query_result \<Rightarrow> bool" where
  "queryFailed q =
     (case q of Throws _ \<Rightarrow> True | Response d e \<Rightarrow> d = None \<and> e \<noteq> None)"

section \<open>Quota guard: \<^verbatim>\<open>checkStorageLimit\<close>\<close>

definition MAX_TOTAL_STORAGE_BYTES :: rat where
  "MAX_TOTAL_STORAGE_BYTES = 100 * 1024 * 1024"

definition MAX_FILE_SIZE_BYTES :: rat where
  "MAX_FILE_SIZE_BYTES = 10 * 1024 * 1024"

definition WARNING_THRESHOLD_PERCENT :: rat where
  "WARNING_THRESHOLD_PERCENT = 80"

text \<open>
  \<open>FileTooLarge s\<close> is ``File is too large (s MB). Maximum file size is 10 MB.'';
  \<open>NotEnoughSpace s a u\<close> is ``Not enough storage space. File size: s MB, Available:
  a MB. You've used u of 100 MB.''; \<open>RemainingAfterUpload r p\<close> is ``After this
  upload, you'll have r MB remaining (p% free).''. The arguments are the numbers before
  \<^verbatim>\<open>toFixed\<close>; \<open>u\<close> is the usage in bytes, which the source renders by
  \<^verbatim>\<open>formatBytes\<close>.
\<close>

datatype limit_message = FileTooLarge rat | NotEnoughSpace rat rat rat

datatype limit_warning = RemainingAfterUpload rat rat

record storage_check_result =
  allowed :: bool
  currentUsage :: rat
  availableSpace :: rat
  fileSize :: rat
  message :: "limit_message option"
  warningMessage :: "limit_warning option"

definition newUsagePercent :: "rat \<Rightarrow> rat \<Rightarrow> rat" where
  "newUsagePercent current fileSizeBytes =
     ((current + fileSizeBytes) / MAX_TOTAL_STORAGE_BYTES) * 100"

definition checkStorageLimit :: "ledger \<Rightarrow> string \<Rightarrow> rat \<Rightarrow> storage_check_result" where
  "checkStorageLimit db userId fileSizeBytes =
     (let current = totalSizeBytes (getUserStorageUsage db userId);
          available = MAX_TOTAL_STORAGE_BYTES - current;
          wouldExceedLimit = (current + fileSizeBytes > MAX_TOTAL_STORAGE_BYTES)
      in if fileSizeBytes > MAX_FILE_SIZE_BYTES then
           \<lparr>allowed = False, currentUsage = current, availableSpace = available,
            fileSize = fileSizeBytes,
            message = Some (FileTooLarge (fileSizeBytes / (1024 * 1024))),
            warningMessage = None\<rparr>
         else if wouldExceedLimit then
           \<lparr>allowed = False, currentUsage = current, availableSpace = available,
            fileSize = fileSizeBytes,
            message = Some (NotEnoughSpace (fileSizeBytes / (1024 * 1024))
                              (available / (1024 * 1024)) current),
            warningMessage = None\<rparr>
         else
           \<lparr>allowed = True, currentUsage = current, availableSpace = available,
            fileSize = fileSizeBytes,
            message = None,
            warningMessage =
              (if newUsagePercent current fileSizeBytes \<ge> WARNING_THRESHOLD_PERCENT
               then Some (RemainingAfterUpload
                            ((available - fileSizeBytes) / (1024 * 1024))
                            (100 - newUsagePercent current fileSizeBytes))
               else None)\<rparr>)"

section \<open>Validator: \<^verbatim>\<open>validateImageFile\<close>\<close>

text \<open>\<^verbatim>\<open>String.prototype.toLowerCase\<close> on the ASCII range.\<close>

definition toLowerCaseChar :: "char \<Rightarrow> char" where
  "toLowerCaseChar c =
     (if (65::nat) \<le> of_char c \<and> of_char c \<le> (90::nat)
      then char_of (of_char c + (32::nat)) else c)"

definition toLowerCase :: "string \<Rightarrow> string" where
  "toLowerCase s = map toLowerCaseChar s"

text \<open>\<^verbatim>\<open>s.split(sep)\<close> for a one-character separator: never the empty list.\<close>

fun split :: "char \<Rightarrow> string \<Rightarrow> string list" where
  "split sep [] = [[]]"
| "split sep (c # cs) =
     (if c = sep then [] # split sep cs
      else (case split sep cs of
              [] \<Rightarrow> [[c]]
            | seg # segs \<Rightarrow> (c # seg) # segs))"

text \<open>\<^verbatim>\<open>xs.pop()\<close>: the last element, \<^verbatim>\<open>undefined\<close> on the empty array.\<close>

definition pop :: "'a list \<Rightarrow> 'a option" where
  "pop xs = (case rev xs of [] \<Rightarrow> None | x # _ \<Rightarrow> Some x)"

definition validExtensions :: "string list" where
  "validExtensions = [''jpg'', ''jpeg'', ''png'', ''webp'', ''gif'']"

text \<open>
  \<^verbatim>\<open>const ext = uri.split('.').pop()?.toLowerCase() || 'jpg';\<close>
  \<^verbatim>\<open>return validExtensions.includes(ext) ? ext : 'jpg';\<close>
\<close>

definition extractExtensionFromUri :: "string \<Rightarrow> string" where
  "extractExtensionFromUri u =
     (let ext = (case pop (split CHR ''.'' u) of
                   None \<Rightarrow> ''jpg''
                 | Some seg \<Rightarrow> if toLowerCase seg = [] then ''jpg'' else toLowerCase seg)
      in if ext \<in> set validExtensions then ext else ''jpg'')"

text \<open>
  \<^verbatim>\<open>mimeTypes[extension.toLowerCase()] || 'image/jpeg'\<close>; the pipeline calls it on
  results of \<open>extractExtensionFromUri\<close> only.
\<close>

definition getMimeType :: "string \<Rightarrow> string" where
  "getMimeType extension =
     (case map_of [(''jpg'', ''image/jpeg''), (''jpeg'', ''image/jpeg''),
                   (''png'', ''image/png''), (''webp'', ''image/webp''),
                   (''gif'', ''image/gif'')] (toLowerCase extension) of
        None \<Rightarrow> ''image/jpeg''
      | Some m \<Rightarrow> m)"

definition maxSizeBytes :: rat where
  "maxSizeBytes = 10 * 1024 * 1024"

definition allowedFormats :: "string list" where
  "allowedFormats = [''jpg'', ''jpeg'', ''png'', ''webp'', ''gif'']"

definition allowedMimeTypes :: "string list" where
  "allowedMimeTypes =
     [''image/jpeg'', ''image/jpg'', ''image/png'', ''image/webp'', ''image/gif'']"

text \<open>
  \<open>InvalidFormat\<close> is ``Invalid file format. Allowed: jpg, jpeg, png, webp, gif'';
  \<open>InvalidMimeType m\<close> is ``Invalid MIME type: m''; \<open>EmptyFile\<close> is ``File is empty
  (0 bytes)''; \<open>FileTooBig s\<close> is ``File too large (s MB). Maximum: 10MB'', with \<open>s\<close>
  the size in megabytes before \<^verbatim>\<open>toFixed(2)\<close>.
\<close>

datatype validation_error =
  InvalidFormat | InvalidMimeType string | EmptyFile | FileTooBig rat

record validation_result =
  valid :: bool
  verror :: "validation_error option"

definition validateImageFile ::
  "string \<Rightarrow> rat option \<Rightarrow> string option \<Rightarrow> validation_result" where
  "validateImageFile u fileSize' mimeType =
     (let extension = extractExtensionFromUri u
      in if extension \<notin> set allowedFormats then
           \<lparr>valid = False, verror = Some InvalidFormat\<rparr>
         else if (case mimeType of
                    None \<Rightarrow> False
                  | Some m \<Rightarrow> m \<noteq> [] \<and> toLowerCase m \<notin> set allowedMimeTypes) then
           \<lparr>valid = False, verror = Some (InvalidMimeType (the mimeType))\<rparr>
         else (case fileSize' of
                 None \<Rightarrow> \<lparr>valid = True, verror = None\<rparr>
               | Some sz \<Rightarrow>
                   if sz = 0 then \<lparr>valid = False, verror = Some EmptyFile\<rparr>
                   else if sz > maxSizeBytes then
                     \<lparr>valid = False, verror = Some (FileTooBig (sz / (1024 * 1024)))\<rparr>
                   else \<lparr>valid = True, verror = None\<rparr>))"

section \<open>Compressor: \<^verbatim>\<open>compressImage\<close>\<close>

subsection \<open>Double arithmetic\<close>

text \<open>
  The scale factor is computed with \<^verbatim>\<open>/\<close>, \<^verbatim>\<open>Math.min\<close>, \<^verbatim>\<open>*\<close> and \<^verbatim>\<open>Math.round\<close> on
  IEEE 754 doubles. A double is a finite value, one of the two infinities, or NaN. A
  finite value is carried as the rational it denotes; the two zeros are one value, and
  a zero divisor counts as \<^verbatim>\<open>+0\<close> (an integer pixel count of zero is \<^verbatim>\<open>+0\<close>).
\<close>

datatype number = Fin rat | PosInfinity | NegInfinity | NaN

text \<open>
  The binary exponent \<open>e\<close> of a positive rational, \<open>2 ^ e \<le> x < 2 ^ (e + 1)\<close>, found by
  halving from above 1 and by doubling from below 1.
\<close>

function expoUp :: "rat \<Rightarrow> int" where
  "expoUp x = (if x < 2 then 0 else 1 + expoUp (x / 2))"
  by pat_completeness auto
termination
proof (relation "measure (\<lambda>x. nat \<lfloor>x\<rfloor>)")
  show "wf (measure (\<lambda>x::rat. nat \<lfloor>x\<rfloor>))" by simp
next
  fix x :: rat
  assume "\<not> x < 2"
  then have "x / 2 \<le> x - 1" by simp
  then have "\<lfloor>x / 2\<rfloor> \<le> \<lfloor>x - 1\<rfloor>" by (rule floor_mono)
  moreover have "2 \<le> \<lfloor>x\<rfloor>" using \<open>\<not> x < 2\<close> by (simp add: le_floor_iff)
  ultimately show "(x / 2, x) \<in> measure (\<lambda>x. nat \<lfloor>x\<rfloor>)" by simp
qed

function expoDown :: "rat \<Rightarrow> int" where
  "expoDown x = (if x \<le> 0 \<or> 1 \<le> x then 0 else expoDown (2 * x) - 1)"
  by pat_completeness auto
termination
proof (relation "measure (\<lambda>x. nat \<lceil>1 / x\<rceil>)")
  show "wf (measure (\<lambda>x::rat. nat \<lceil>1 / x\<rceil>))" by simp
next
  fix x :: rat
  assume "\<not> (x \<le> 0 \<or> 1 \<le> x)"
  then have x: "0 < x" "x < 1" by simp_all
  then have y: "1 < 1 / x" by simp
  then have c: "2 \<le> \<lceil>1 / x\<rceil>" by linarith
  have "1 / (2 * x) = (1 / x) / 2" by simp
  also have "\<dots> \<le> of_int \<lceil>1 / x\<rceil> / 2" by (simp add: divide_right_mono)
  also have "\<dots> \<le> of_int (\<lceil>1 / x\<rceil> - 1)" using c by simp
  finally have "\<lceil>1 / (2 * x)\<rceil> \<le> \<lceil>1 / x\<rceil> - 1" by (simp only: ceiling_le_iff)
  then show "(2 * x, x) \<in> measure (\<lambda>x. nat \<lceil>1 / x\<rceil>)" using c x by simp
qed

declare expoUp.simps [simp del] expoDown.simps [simp del]

definition exponent :: "rat \<Rightarrow> int" where
  "exponent x = (if 1 \<le> x then expoUp x else expoDown x)"

text \<open>Rounding to the nearest integer, a tie going to the even one.\<close>

definition roundEven :: "rat \<Rightarrow> int" where
  "roundEven y =
     (let f = \<lfloor>y\<rfloor>; d = y - of_int f
      in if d < 1 / 2 then f else if 1 / 2 < d then f + 1 else if even f then f else f + 1)"

text \<open>
  The result of a double operation whose exact value is \<open>x\<close>: the nearest double, a tie
  going to the even significand. The significand has 53 bits, so the spacing of
  doubles at exponent \<open>e\<close> is \<open>2 ^ (e - 52)\<close>; below \<open>2 ^ -1022\<close> the spacing stays that of
  the subnormals, \<open>2 ^ -1074\<close>; a rounded magnitude of \<open>2 ^ 1024\<close> is an infinity.
\<close>

definition toDouble :: "rat \<Rightarrow> number" where
  "toDouble x =
     (if x = 0 then Fin 0
      else (let a = \<bar>x\<bar>;
                e = max (exponent a) (- 1022);
                ulp = 2 powi (e - 52);
                m = of_int (roundEven (a / ulp)) * ulp
            in if 2 powi 1024 \<le> m then (if 0 < x then PosInfinity else NegInfinity)
               else Fin (if 0 < x then m else - m)))"

text \<open>
  The value of \<open>toDouble\<close> on a positive rational of the normal range, as a rational
  (see \<open>toDouble_normal\<close> below).
\<close>

definition nearest :: "rat \<Rightarrow> rat" where
  "nearest x = of_int (roundEven (x / 2 powi (exponent x - 52))) * 2 powi (exponent x - 52)"

text \<open>
  \<^verbatim>\<open>a / b\<close> and \<^verbatim>\<open>a * y\<close> on doubles. In \<open>jsDivide\<close> both operands are finite (a configured
  maximum and a pixel dimension); in \<open>jsTimes\<close> the left operand is finite (a pixel
  dimension) and the right one is the scale factor, which may be infinite or NaN.
\<close>

definition jsDivide :: "rat \<Rightarrow> rat \<Rightarrow> number" where
  "jsDivide a b =
     (if b = 0 then (if 0 < a then PosInfinity else if a < 0 then NegInfinity else NaN)
      else toDouble (a / b))"

definition jsTimes :: "rat \<Rightarrow> number \<Rightarrow> number" where
  "jsTimes a y =
     (case y of
        Fin b \<Rightarrow> toDouble (a * b)
      | PosInfinity \<Rightarrow> if 0 < a then PosInfinity else if a < 0 then NegInfinity else NaN
      | NegInfinity \<Rightarrow> if 0 < a then NegInfinity else if a < 0 then PosInfinity else NaN
      | NaN \<Rightarrow> NaN)"

text \<open>\<^verbatim>\<open>Math.min\<close> of two numbers: NaN if either is NaN.\<close>

fun mathMin :: "number \<Rightarrow> number \<Rightarrow> number" where
  "mathMin NaN y = NaN"
| "mathMin x NaN = NaN"
| "mathMin NegInfinity y = NegInfinity"
| "mathMin x NegInfinity = NegInfinity"
| "mathMin PosInfinity y = y"
| "mathMin x PosInfinity = x"
| "mathMin (Fin a) (Fin b) = Fin (min a b)"

text \<open>
  \<^verbatim>\<open>Math.round\<close>: the nearest integer, a tie going up; an infinity and NaN are returned
  as they are. The operation is exact: the result is a double whenever the argument
  is.
\<close>

definition mathRound :: "number \<Rightarrow> number" where
  "mathRound x = (case x of Fin a \<Rightarrow> Fin (of_int \<lfloor>a + 1 / 2\<rfloor>) | _ \<Rightarrow> x)"

subsection \<open>The codec and the options\<close>

text \<open>
  The image codec (\<^verbatim>\<open>ImageManipulator.manipulateAsync\<close>) receives a source reference, a
  list of actions and the save options; \<open>compressImage\<close> always saves as JPEG, so only
  the \<^verbatim>\<open>compress\<close> option is recorded. It resolves to an image (reference and pixel
  dimensions) or rejects with a message. The pixel dimensions of an image are integers;
  the dimensions requested by a resize action are whatever numbers the code computed.
\<close>

datatype action = Resize number number

record manipulate_call =
  source :: string
  actions :: "action list"
  compress :: rat

record image_result =
  img_uri :: string
  img_width :: int
  img_height :: int

type_synonym codec = "manipulate_call \<Rightarrow> string + image_result"

record image_processing_options =
  maxWidth :: "rat option"
  maxHeight :: "rat option"
  quality :: "rat option"
  targetSizeKB :: "rat option"

record processed_image =
  uri :: string
  width :: int
  height :: int
  processedSize :: rat

text \<open>\<^verbatim>\<open>{ ...DEFAULT_OPTIONS, ...options }\<close>\<close>

definition optMaxWidth :: "image_processing_options \<Rightarrow> rat" where
  "optMaxWidth options = (case maxWidth options of None \<Rightarrow> 1920 | Some v \<Rightarrow> v)"

definition optMaxHeight :: "image_processing_options \<Rightarrow> rat" where
  "optMaxHeight options = (case maxHeight options of None \<Rightarrow> 1920 | Some v \<Rightarrow> v)"

definition optQuality :: "image_processing_options \<Rightarrow> rat" where
  "optQuality options = (case quality options of None \<Rightarrow> 8 / 10 | Some v \<Rightarrow> v)"

subsection \<open>The scale factor and the resize action\<close>

text \<open>
  Lines 52 to 71 of the source: the scale factor \<^verbatim>\<open>ratio\<close> and the actions pushed for an
  image of the given dimensions. Each of \<^verbatim>\<open>opts.maxWidth / currentWidth\<close>,
  \<^verbatim>\<open>opts.maxHeight / currentHeight\<close>, \<^verbatim>\<open>currentWidth * ratio\<close> and
  \<^verbatim>\<open>currentHeight * ratio\<close> is one double operation, rounded on its own.
\<close>

definition scaleRatio :: "image_processing_options \<Rightarrow> int \<Rightarrow> int \<Rightarrow> number" where
  "scaleRatio options currentWidth currentHeight =
     (let widthRatio = jsDivide (optMaxWidth options) (of_int currentWidth);
          heightRatio = jsDivide (optMaxHeight options) (of_int currentHeight)
      in mathMin widthRatio heightRatio)"

definition resizeActions :: "image_processing_options \<Rightarrow> int \<Rightarrow> int \<Rightarrow> action list" where
  "resizeActions options currentWidth currentHeight =
     (if of_int currentWidth > optMaxWidth options
         \<or> of_int currentHeight > optMaxHeight options then
        (let ratio = scaleRatio options currentWidth currentHeight;
             newWidth = mathRound (jsTimes (of_int currentWidth) ratio);
             newHeight = mathRound (jsTimes (of_int currentHeight) ratio)
         in [Resize newWidth newHeight])
      else [])"

text \<open>
  \<open>compressImage\<close> returns its result together with the codec calls it made, in order.
  Any rejection of the codec is rethrown as ``Image processing failed: ...''.
\<close>

definition compressImage ::
  "codec \<Rightarrow> string \<Rightarrow> image_processing_options
     \<Rightarrow> (string + processed_image) \<times> manipulate_call list" where
  "compressImage manipulateAsync u options =
     (let first = \<lparr>source = u, actions = [], compress = optQuality options\<rparr>
      in case manipulateAsync first of
           Inl e \<Rightarrow> (Inl (''Image processing failed: '' @ e), [first])
         | Inr imageInfo \<Rightarrow>
             (let acts = resizeActions options (img_width imageInfo) (img_height imageInfo)
              in if length acts > 0 then
                   (let second = \<lparr>source = img_uri imageInfo, actions = acts,
                                   compress = optQuality options\<rparr>
                    in case manipulateAsync second of
                         Inl e \<Rightarrow> (Inl (''Image processing failed: '' @ e), [first, second])
                       | Inr finalImage \<Rightarrow>
                           (Inr \<lparr>uri = img_uri finalImage, width = img_width finalImage,
                                 height = img_height finalImage, processedSize = 0\<rparr>,
                            [first, second]))
                 else
                   (Inr \<lparr>uri = img_uri imageInfo, width = img_width imageInfo,
                         height = img_height imageInfo, processedSize = 0\<rparr>,
                    [first])))"

section \<open>Retry uploader: \<^verbatim>\<open>uploadWithRetry\<close>\<close>

text \<open>
  What \<^verbatim>\<open>supabase.storage.from(bucket).upload(path, data, { contentType, upsert: false })\<close>
  is called with. The byte buffer is a list of octets.
\<close>

record upload_request =
  bucket :: string
  path :: string
  body :: "8 word list"
  contentType :: string
  upsert :: bool

text \<open>
  Everything the pipeline does to the outside world, in the order it happens: a call of
  the progress sink (when one is present), a codec call, a file read, a read of the usage
  ledger, a base64 decode, a store upload, a sleep (milliseconds), a signed-URL request.
\<close>

datatype event =
  Progress rat
  | Manipulate manipulate_call
  | ReadFile string
  | LedgerRead string
  | Decode
  | Upload upload_request
  | Sleep rat
  | SignUrl string string nat

text \<open>
  The errors the pipeline throws. \<open>ValidationFailed e\<close> carries the validator's error
  (``File validation failed'' when there is none); \<open>StorageLimitExceeded m\<close> the quota
  guard's message (``Storage limit exceeded'' when there is none); \<open>DecodeFailed\<close> is
  ``Failed to process image data for upload''; \<open>UploadFailed n m\<close> is ``Upload failed
  after n attempts: m''; \<open>SignedUrlFailed\<close> is ``Failed to generate signed URL'';
  \<open>Thrown m\<close> is an exception of a collaborator passing through unchanged.
\<close>

datatype upload_error =
  ValidationFailed "validation_error option"
  | StorageLimitExceeded "limit_message option"
  | DecodeFailed
  | UploadFailed int string
  | SignedUrlFailed
  | Thrown string

text \<open>
  The object store as the retry loop sees it: the reply to the \<open>n\<close>-th upload call
  (counting from 0), given the request. A reply is \<^verbatim>\<open>{ data, error }\<close> or an exception.
\<close>

type_synonym 'a store = "nat \<Rightarrow> upload_request \<Rightarrow> 'a query_result"

text \<open>
  One attempt: \<open>Inl m\<close> when the call threw \<open>m\<close> or replied with an error whose
  message is \<open>m\<close> (rethrown inside the \<^verbatim>\<open>try\<close>), \<open>Inr data\<close> otherwise.
\<close>

definition attemptUpload :: "'a query_result \<Rightarrow> string + 'a option" where
  "attemptUpload reply =
     (case reply of
        Throws m \<Rightarrow> Inl m
      | Response uploadData uploadError \<Rightarrow>
          (case uploadError of Some m \<Rightarrow> Inl m | None \<Rightarrow> Inr uploadData))"

text \<open>\<^verbatim>\<open>Math.min(1000 * Math.pow(2, attempt), 5000)\<close>\<close>

definition backoffDelay :: "nat \<Rightarrow> rat" where
  "backoffDelay attempt = min (1000 * 2 ^ attempt) 5000"

text \<open>\<^verbatim>\<open>lastError?.message || 'Unknown error'\<close>\<close>

definition lastErrorMessage :: "string option \<Rightarrow> string" where
  "lastErrorMessage lastError =
     (case lastError of
        None \<Rightarrow> ''Unknown error''
      | Some m \<Rightarrow> if m = [] then ''Unknown error'' else m)"

text \<open>
  The \<^verbatim>\<open>for\<close> loop of \<open>uploadWithRetry\<close>, from the given value of \<^verbatim>\<open>attempt\<close>. The
  store has been called \<open>attempt\<close> times when an iteration starts.
\<close>

function uploadLoop ::
  "'a store \<Rightarrow> upload_request \<Rightarrow> int \<Rightarrow> nat \<Rightarrow> string option
     \<Rightarrow> (upload_error + 'a option) \<times> event list" where
  "uploadLoop store req maxRetries attempt lastError =
     (if int attempt < maxRetries then
        (case attemptUpload (store attempt req) of
           Inr uploadData \<Rightarrow>
             (Inr uploadData,
              [Progress ((of_nat attempt + 1 / 2) / of_int maxRetries), Upload req, Progress 1])
         | Inl m \<Rightarrow>
             (let rest = uploadLoop store req maxRetries (Suc attempt) (Some m)
              in (fst rest,
                  [Progress ((of_nat attempt + 1 / 2) / of_int maxRetries), Upload req]
                  @ (if int attempt < maxRetries - 1 then [Sleep (backoffDelay attempt)] else [])
                  @ snd rest)))
      else (Inl (UploadFailed maxRetries (lastErrorMessage lastError)), []))"
  by pat_completeness auto
termination
  by (relation "measure (\<lambda>(store, req, maxRetries, attempt, lastError).
                  nat (maxRetries - int attempt))") auto

declare uploadLoop.simps [simp del]

definition uploadWithRetry ::
  "'a store \<Rightarrow> string \<Rightarrow> string \<Rightarrow> 8 word list \<Rightarrow> string \<Rightarrow> int
     \<Rightarrow> (upload_error + 'a option) \<times> event list" where
  "uploadWithRetry store bkt pth dat ctype maxRetries =
     uploadLoop store
       \<lparr>bucket = bkt, path = pth, body = dat, contentType = ctype, upsert = False\<rparr>
       maxRetries 0 None"

text \<open>The store calls and the sleeps of a run, in order.\<close>

definition storeCalls :: "event list \<Rightarrow> upload_request list" where
  "storeCalls evs = concat (map (\<lambda>e. case e of Upload r \<Rightarrow> [r] | _ \<Rightarrow> []) evs)"

definition sleeps :: "event list \<Rightarrow> rat list" where
  "sleeps evs = concat (map (\<lambda>e. case e of Sleep d \<Rightarrow> [d] | _ \<Rightarrow> []) evs)"

text \<open>A store stub that fails its first \<open>k\<close> calls and then succeeds.\<close>

definition failingFirst :: "nat \<Rightarrow> string store" where
  "failingFirst k n req =
     (if n < k then Response None (Some ''network'') else Response (Some (path req)) None)"

section \<open>Binary encoder\<close>

text \<open>
  The loop that fills the \<^verbatim>\<open>Uint8Array\<close>:
  \<^verbatim>\<open>bytes = new Uint8Array(binaryString.length);\<close>
  \<^verbatim>\<open>for (let i = 0; i < binaryString.length; i++) bytes[i] = binaryString.charCodeAt(i);\<close>
  A binary string is the list of its character codes; storing into an octet array
  truncates the code to eight bits.
\<close>

function fillBytes :: "nat list \<Rightarrow> nat \<Rightarrow> 8 word list \<Rightarrow> 8 word list" where
  "fillBytes binaryString i bytes =
     (if i < length binaryString
      then fillBytes binaryString (Suc i) (bytes[i := of_nat (binaryString ! i)])
      else bytes)"
  by pat_completeness auto
termination
  by (relation "measure (\<lambda>(binaryString, i, bytes). length binaryString - i)") auto

declare fillBytes.simps [simp del]

definition bytesOfBinaryString :: "nat list \<Rightarrow> 8 word list" where
  "bytesOfBinaryString binaryString =
     fillBytes binaryString 0 (replicate (length binaryString) 0)"

text \<open>
  The \<^verbatim>\<open>try\<close> block around the decode: any exception of the decoder becomes
  \<open>DecodeFailed\<close>.
\<close>

definition decodeToBytes ::
  "(string \<Rightarrow> string + nat list) \<Rightarrow> string \<Rightarrow> upload_error + 8 word list" where
  "decodeToBytes decoder base64 =
     (case decoder base64 of
        Inl decodeError \<Rightarrow> Inl DecodeFailed
      | Inr binaryString \<Rightarrow> Inr (bytesOfBinaryString binaryString))"

text \<open>
  Modelled from the spec: the base64 alphabet. Neither the producer of the base64 text
  (the file system's read with base64 encoding) nor the decoder (\<^verbatim>\<open>decode\<close> of the
  \<^verbatim>\<open>base-64\<close> package) is under src/; both are modelled as the standard base64
  transfer encoding the specification names.
\<close>

definition TABLE :: string where
  "TABLE = ''ABCDEFGHIJKLMNOPQRSTUVWXYZabcdefghijklmnopqrstuvwxyz0123456789+/''"

text \<open>
  Modelled from the spec: the position of a character in the alphabet (the length of
  the alphabet when it does not occur).
\<close>

fun indexOf :: "'a list \<Rightarrow> 'a \<Rightarrow> nat" where
  "indexOf [] c = 0"
| "indexOf (x # xs) c = (if x = c then 0 else Suc (indexOf xs c))"

text \<open>
  Modelled from the spec: ``encoding a known byte sequence to base64''. Three octets
  give four characters of six bits each; a final group of one or two octets is padded
  with \<open>=\<close>.
\<close>

fun base64Encode :: "8 word list \<Rightarrow> string" where
  "base64Encode [] = []"
| "base64Encode [a] =
     [TABLE ! (unat a div 4), TABLE ! ((unat a mod 4) * 16), CHR ''='', CHR ''='']"
| "base64Encode [a, b] =
     [TABLE ! (unat a div 4), TABLE ! ((unat a mod 4) * 16 + unat b div 16),
      TABLE ! ((unat b mod 16) * 4), CHR ''='']"
| "base64Encode (a # b # c # rest) =
     [TABLE ! (unat a div 4), TABLE ! ((unat a mod 4) * 16 + unat b div 16),
      TABLE ! ((unat b mod 16) * 4 + unat c div 64), TABLE ! (unat c mod 64)]
     @ base64Encode rest"

text \<open>
  Modelled from the spec: the padding at the end of the text (one or two \<open>=\<close>) is
  dropped before the characters are decoded.
\<close>

definition stripPadding :: "string \<Rightarrow> string" where
  "stripPadding s =
     (case rev s of
        c1 # c2 # r \<Rightarrow>
          if c1 = CHR ''='' \<and> c2 = CHR ''='' then rev r
          else if c1 = CHR ''='' then rev (c2 # r)
          else s
      | [c1] \<Rightarrow> if c1 = CHR ''='' then [] else s
      | [] \<Rightarrow> s)"

text \<open>
  Modelled from the spec: ``decode that string character-by-character into a byte
  sequence''. Each character contributes six bits to \<open>bitStorage\<close>; after every
  character but the first of a group of four, the next eight bits are appended to the
  output.
\<close>

fun decodeLoop :: "string \<Rightarrow> nat \<Rightarrow> nat \<Rightarrow> nat list \<Rightarrow> nat list" where
  "decodeLoop [] bitCounter bitStorage output = output"
| "decodeLoop (c # cs) bitCounter bitStorage output =
     (let buffer = indexOf TABLE c;
          storage = (if bitCounter mod 4 \<noteq> 0 then bitStorage * 64 + buffer else buffer)
      in decodeLoop cs (bitCounter + 1) storage
           (if bitCounter mod 4 \<noteq> 0
            then output @ [(storage div 2 ^ (6 - 2 * (bitCounter mod 4))) mod 256]
            else output))"

text \<open>
  Modelled from the spec: the decoder. ``A decode error (malformed text) is a distinct,
  fatal error'': a text with a character outside the alphabet, or whose length is one
  more than a multiple of four, is rejected.
\<close>

definition base64Decode :: "string \<Rightarrow> string + nat list" where
  "base64Decode input =
     (let stripped = (if length input mod 4 = 0 then stripPadding input else input)
      in if length stripped mod 4 = 1 \<or> \<not> list_all (\<lambda>c. c \<in> set TABLE) stripped
         then Inl ''Invalid character: the string to be decoded is not correctly encoded.''
         else Inr (decodeLoop stripped 0 0 []))"

section \<open>The pipeline: \<^verbatim>\<open>uploadImageToSupabase\<close>\<close>

record upload_options =
  fileName :: "string option"
  opt_bucket :: "string option"
  opt_compress :: "bool option"
  opt_maxRetries :: "int option"
  userId :: string

record upload_result =
  url :: string
  sizeBytes :: rat
  compressed :: bool

text \<open>
  The collaborators of one run: the image codec, the file system's base64 read, the
  usage ledger, the base64 decoder, the object store, the signed-URL service and the
  successive readings of \<^verbatim>\<open>Date.now()\<close>. The progress sink is taken not to throw.
\<close>

record environment =
  env_codec :: codec
  env_readAsString :: "string \<Rightarrow> string + string"
  env_ledger :: ledger
  env_base64Decode :: "string \<Rightarrow> string + nat list"
  env_store :: "string store"
  env_createSignedUrl :: "string \<Rightarrow> string \<Rightarrow> nat \<Rightarrow> string query_result"
  env_now :: "nat \<Rightarrow> nat"

text \<open>The defaults of the destructured options.\<close>

definition optBucket :: "upload_options \<Rightarrow> string" where
  "optBucket options = (case opt_bucket options of None \<Rightarrow> ''storage-images'' | Some b \<Rightarrow> b)"

definition optCompress :: "upload_options \<Rightarrow> bool" where
  "optCompress options = (case opt_compress options of None \<Rightarrow> True | Some c \<Rightarrow> c)"

definition optMaxRetries :: "upload_options \<Rightarrow> int" where
  "optMaxRetries options = (case opt_maxRetries options of None \<Rightarrow> 3 | Some n \<Rightarrow> n)"

text \<open>The profile the pipeline passes to \<open>compressImage\<close>.\<close>

definition pipelineProfile :: image_processing_options where
  "pipelineProfile =
     \<lparr>maxWidth = Some 1920, maxHeight = Some 1920, quality = Some (8 / 10),
      targetSizeKB = None\<rparr>"

text \<open>Decimal rendering of a non-negative integer in a template string.\<close>

fun showNat :: "nat \<Rightarrow> string" where
  "showNat n =
     (if n < 10 then [char_of (48 + n)]
      else showNat (n div 10) @ [char_of (48 + n mod 10)])"

declare showNat.simps [simp del]

text \<open>\<^verbatim>\<open>fileName.replace(/[^a-zA-Z0-9-_]/g, '-')\<close>\<close>

definition sanitizeChar :: "char \<Rightarrow> char" where
  "sanitizeChar c =
     (let n = (of_char c :: nat)
      in if (97 \<le> n \<and> n \<le> 122) \<or> (65 \<le> n \<and> n \<le> 90) \<or> (48 \<le> n \<and> n \<le> 57)
            \<or> c = CHR ''-'' \<or> c = CHR ''_''
         then c else CHR ''-'')"

text \<open>
  The destination path: \<^verbatim>\<open>${userId}/${sanitizedName}-${Date.now()}.${fileExtension}\<close>,
  where \<^verbatim>\<open>sanitizedName\<close> is the sanitised \<^verbatim>\<open>fileName\<close> when one is given and
  \<^verbatim>\<open>image-${Date.now()}\<close> otherwise (an earlier reading of the clock).
\<close>

definition storagePathOf :: "environment \<Rightarrow> upload_options \<Rightarrow> string \<Rightarrow> string" where
  "storagePathOf env options fileExtension =
     (let given = (case fileName options of None \<Rightarrow> [] | Some n \<Rightarrow> n);
          sanitizedName = (if given \<noteq> [] then map sanitizeChar given
                           else ''image-'' @ showNat (env_now env 0));
          stamp = env_now env (if given \<noteq> [] then 0 else 1);
          uniqueFileName = sanitizedName @ ''-'' @ showNat stamp @ ''.'' @ fileExtension
      in userId options @ ''/'' @ uniqueFileName)"

text \<open>
  The compression step (``Compress image if enabled''): the reference the remaining
  stages work on, the flag \<^verbatim>\<open>wasCompressed\<close>, and the events of the step.
\<close>

definition compressionStage ::
  "environment \<Rightarrow> string \<Rightarrow> upload_options \<Rightarrow> (string \<times> bool) \<times> event list" where
  "compressionStage env u options =
     (if optCompress options then
        (case fst (compressImage (env_codec env) u pipelineProfile) of
           Inr compressedImage \<Rightarrow>
             ((uri compressedImage, True),
              map Manipulate (snd (compressImage (env_codec env) u pipelineProfile))
              @ [Progress 30])
         | Inl compressionError \<Rightarrow>
             ((u, False),
              map Manipulate (snd (compressImage (env_codec env) u pipelineProfile))
              @ [Progress 30]))
      else ((u, False), []))"

text \<open>
  From the file read to the quota check: the base64 text and the estimated size, or the
  error thrown.
\<close>

definition readAndCheck ::
  "environment \<Rightarrow> upload_options \<Rightarrow> string
     \<Rightarrow> (upload_error + string \<times> rat) \<times> event list" where
  "readAndCheck env options processedUri =
     (let fileExtension = extractExtensionFromUri processedUri;
          mimeType = getMimeType fileExtension
      in case env_readAsString env processedUri of
           Inl e \<Rightarrow> (Inl (Thrown e), [Progress 40, ReadFile processedUri])
         | Inr base64 \<Rightarrow>
             (let estimatedSize = (of_nat (length base64) * 3) / 4;
                  sizeValidation =
                    validateImageFile processedUri (Some estimatedSize) (Some mimeType)
              in if \<not> valid sizeValidation then
                   (Inl (ValidationFailed (verror sizeValidation)),
                    [Progress 40, ReadFile processedUri])
                 else
                   (let storageCheck =
                          checkStorageLimit (env_ledger env) (userId options) estimatedSize
                    in if \<not> allowed storageCheck then
                         (Inl (StorageLimitExceeded (message storageCheck)),
                          [Progress 40, ReadFile processedUri, LedgerRead (userId options)])
                       else
                         (Inr (base64, estimatedSize),
                          [Progress 40, ReadFile processedUri, LedgerRead (userId options),
                           Progress 50]))))"

text \<open>The wrapper the pipeline hands to \<open>uploadWithRetry\<close> as progress sink.\<close>

definition retryProgress :: "event \<Rightarrow> event" where
  "retryProgress e = (case e of Progress p \<Rightarrow> Progress (60 + p * (3 / 10)) | _ \<Rightarrow> e)"

text \<open>
  From the generation of the destination path to the result: decode, upload with
  retry, signed URL.
\<close>

definition transfer ::
  "environment \<Rightarrow> upload_options \<Rightarrow> string \<Rightarrow> bool \<Rightarrow> string \<Rightarrow> rat
     \<Rightarrow> (upload_error + upload_result) \<times> event list" where
  "transfer env options processedUri wasCompressed base64 estimatedSize =
     (let fileExtension = extractExtensionFromUri processedUri;
          mimeType = getMimeType fileExtension;
          storagePath = storagePathOf env options fileExtension
      in case decodeToBytes (env_base64Decode env) base64 of
           Inl err \<Rightarrow> (Inl err, [Decode])
         | Inr bytes \<Rightarrow>
             (let sent = uploadWithRetry (env_store env) (optBucket options) storagePath
                           bytes mimeType (optMaxRetries options);
                  sentEvents = [Decode, Progress 60] @ map retryProgress (snd sent)
              in case fst sent of
                   Inl err \<Rightarrow> (Inl err, sentEvents)
                 | Inr uploadData \<Rightarrow>
                     (let signEvents = sentEvents
                            @ [Progress 90, SignUrl (optBucket options) storagePath 86400]
                      in case env_createSignedUrl env (optBucket options) storagePath 86400 of
                           Throws e \<Rightarrow> (Inl (Thrown e), signEvents)
                         | Response urlData urlError \<Rightarrow>
                             (case urlData of
                                None \<Rightarrow> (Inl SignedUrlFailed, signEvents)
                              | Some signedUrl \<Rightarrow>
                                  if urlError \<noteq> None \<or> signedUrl = [] then
                                    (Inl SignedUrlFailed, signEvents)
                                  else
                                    (Inr \<lparr>url = signedUrl, sizeBytes = estimatedSize,
                                          compressed = wasCompressed\<rparr>,
                                     signEvents @ [Progress 100])))))"

text \<open>Everything after the compression step, on the reference it chose.\<close>

definition uploadStages ::
  "environment \<Rightarrow> upload_options \<Rightarrow> string \<Rightarrow> bool
     \<Rightarrow> (upload_error + upload_result) \<times> event list" where
  "uploadStages env options processedUri wasCompressed =
     (case fst (readAndCheck env options processedUri) of
        Inl err \<Rightarrow> (Inl err, snd (readAndCheck env options processedUri))
      | Inr (base64, estimatedSize) \<Rightarrow>
          (let sent = transfer env options processedUri wasCompressed base64 estimatedSize
           in (fst sent, snd (readAndCheck env options processedUri) @ snd sent)))"

definition uploadImageToSupabase ::
  "environment \<Rightarrow> string \<Rightarrow> upload_options
     \<Rightarrow> (upload_error + upload_result) \<times> event list" where
  "uploadImageToSupabase env u options =
     (let preValidation = validateImageFile u None None
      in if \<not> valid preValidation then
           (Inl (ValidationFailed (verror preValidation)), [])
         else
           (let step = compressionStage env u options;
                rest = uploadStages env options (fst (fst step)) (snd (fst step))
            in (fst rest, [Progress 10] @ snd step @ snd rest)))"

text \<open>
  The events of a failed attempt that is followed by another one: the progress call, the
  store call and the sleep.
\<close>

definition retriedAttempt :: "int \<Rightarrow> upload_request \<Rightarrow> nat \<Rightarrow> event list" where
  "retriedAttempt m req i =
     [Progress ((of_nat i + 1 / 2) / of_int m), Upload req, Sleep (min (1000 * 2 ^ i) 5000)]"

text \<open>The base64 text of an octet list without its padding.\<close>

fun encodeUnpadded :: "8 word list \<Rightarrow> string" where
  "encodeUnpadded [] = []"
| "encodeUnpadded [a] =
     [TABLE ! (unat a div 4), TABLE ! ((unat a mod 4) * 16)]"
| "encodeUnpadded [a, b] =
     [TABLE ! (unat a div 4), TABLE ! ((unat a mod 4) * 16 + unat b div 16),
      TABLE ! ((unat b mod 16) * 4)]"
| "encodeUnpadded (a # b # c # rest) =
     [TABLE ! (unat a div 4), TABLE ! ((unat a mod 4) * 16 + unat b div 16),
      TABLE ! ((unat b mod 16) * 4 + unat c div 64), TABLE ! (unat c mod 64)]
     @ encodeUnpadded rest"

text \<open>
  A codec for an image of the given pixel dimensions: a call without actions reports
  them, a resize to finite dimensions reports the requested dimensions, any other
  resize is rejected.
\<close>

definition sampleCodec :: "int \<Rightarrow> int \<Rightarrow> codec" where
  "sampleCodec w h call =
     (case actions call of
        [] \<Rightarrow> Inr \<lparr>img_uri = ''file:///cache/first.jpg'', img_width = w, img_height = h\<rparr>
      | Resize (Fin nw) (Fin nh) # _ \<Rightarrow>
          Inr \<lparr>img_uri = ''file:///cache/resized.jpg'', img_width = \<lfloor>nw\<rfloor>, img_height = \<lfloor>nh\<rfloor>\<rparr>
      | _ \<Rightarrow> Inl ''invalid size'')"

text \<open>A ledger whose only row for every owner is one stored image of \<open>n\<close> bytes.\<close>

definition ledgerWith :: "rat \<Rightarrow> ledger" where
  "ledgerWith n =
     \<lparr>storage_images = (\<lambda>_. Response (Some [Some n]) None),
      tools = (\<lambda>_. Response (Some []) None)\<rparr>"

text \<open>A ledger whose queries both resolve with an error and no data.\<close>

definition ledgerDown :: ledger where
  "ledgerDown =
     \<lparr>storage_images = (\<lambda>_. Response None (Some ''timeout'')),
      tools = (\<lambda>_. Response None (Some ''timeout''))\<rparr>"

text \<open>
  A codec that rejects every image, and a run environment for the examples: the file
  read gives the base64 text \<open>base64\<close>, the owner stores nothing yet, the decoder gives
  two octets, the store fails its first \<open>k\<close> calls, the signed URL is issued and the
  clock reads 42.
\<close>

definition corruptCodec :: codec where
  "corruptCodec call = Inl ''corrupt image''"

definition sampleOptions :: upload_options where
  "sampleOptions =
     \<lparr>fileName = Some ''photo'', opt_bucket = None, opt_compress = None,
      opt_maxRetries = None, userId = ''u1''\<rparr>"

definition sampleEnv :: "codec \<Rightarrow> string \<Rightarrow> nat \<Rightarrow> environment" where
  "sampleEnv cdc base64 k =
     \<lparr>env_codec = cdc,
      env_readAsString = (\<lambda>_. Inr base64),
      env_ledger = ledgerWith 0,
      env_base64Decode = (\<lambda>_. Inr [255, 216]),
      env_store = failingFirst k,
      env_createSignedUrl = (\<lambda>b p ttl. Response (Some (''https://store/'' @ p)) None),
      env_now = (\<lambda>_. 42)\<rparr>"

section \<open>Properties of the quota guard\<close>

lemma usage_ledgerWith:
  "totalSizeBytes (getUserStorageUsage (ledgerWith n) u) = n"
  by (simp add: getUserStorageUsage_def ledgerWith_def sizeOrZero_def sumFileSizes_def)

text \<open>
  C6. Whatever the ledger reports as current usage, a candidate that would push
  current usage plus its own size past the 100MB total ceiling is not allowed; and a
  candidate above the 10MB per-object ceiling is not allowed whatever the usage is.
\<close>

theorem checkStorageLimit_rejects_over_ceilings:
  "(totalSizeBytes (getUserStorageUsage db owner) + candidateBytes > MAX_TOTAL_STORAGE_BYTES
      \<longrightarrow> \<not> allowed (checkStorageLimit db owner candidateBytes))
   \<and> (candidateBytes > MAX_FILE_SIZE_BYTES
      \<longrightarrow> \<not> allowed (checkStorageLimit db owner candidateBytes))"
  by (simp add: checkStorageLimit_def Let_def)

theorem checkStorageLimit_rejects_over_ceilings_witness:
  "totalSizeBytes (getUserStorageUsage (ledgerWith (95 * 1024 * 1024)) ''u'')
      + 6 * 1024 * 1024 > MAX_TOTAL_STORAGE_BYTES
   \<and> \<not> allowed (checkStorageLimit (ledgerWith (95 * 1024 * 1024)) ''u'' (6 * 1024 * 1024))
   \<and> 11 * 1024 * 1024 > MAX_FILE_SIZE_BYTES
   \<and> \<not> allowed (checkStorageLimit (ledgerWith 0) ''u'' (11 * 1024 * 1024))"
  using checkStorageLimit_rejects_over_ceilings
          [of "ledgerWith (95 * 1024 * 1024)" "''u''" "6 * 1024 * 1024"]
        checkStorageLimit_rejects_over_ceilings
          [of "ledgerWith 0" "''u''" "11 * 1024 * 1024"]
  by (simp add: usage_ledgerWith MAX_TOTAL_STORAGE_BYTES_def MAX_FILE_SIZE_BYTES_def)

text \<open>
  C7, as the code has it. When the candidate is within the 10MB per-object ceiling and
  the usage after the upload reaches 80% of the 100MB ceiling without exceeding the
  ceiling, the upload is allowed and carries a warning.
\<close>

theorem checkStorageLimit_warns_near_ceiling:
  assumes "candidateBytes \<le> MAX_FILE_SIZE_BYTES"
    and "newUsagePercent (totalSizeBytes (getUserStorageUsage db owner)) candidateBytes
           \<ge> WARNING_THRESHOLD_PERCENT"
    and "totalSizeBytes (getUserStorageUsage db owner) + candidateBytes
           \<le> MAX_TOTAL_STORAGE_BYTES"
  shows "allowed (checkStorageLimit db owner candidateBytes)
         \<and> warningMessage (checkStorageLimit db owner candidateBytes) \<noteq> None
         \<and> message (checkStorageLimit db owner candidateBytes) = None"
  using assms by (simp add: checkStorageLimit_def Let_def)

text \<open>The scenario of the specification: 95MB used, a 3MB candidate.\<close>

theorem checkStorageLimit_warns_near_ceiling_witness:
  "3 * 1024 * 1024 \<le> MAX_FILE_SIZE_BYTES
   \<and> newUsagePercent (totalSizeBytes (getUserStorageUsage (ledgerWith (95 * 1024 * 1024)) ''u''))
        (3 * 1024 * 1024) \<ge> WARNING_THRESHOLD_PERCENT
   \<and> totalSizeBytes (getUserStorageUsage (ledgerWith (95 * 1024 * 1024)) ''u'')
        + 3 * 1024 * 1024 \<le> MAX_TOTAL_STORAGE_BYTES
   \<and> allowed (checkStorageLimit (ledgerWith (95 * 1024 * 1024)) ''u'' (3 * 1024 * 1024))
   \<and> warningMessage (checkStorageLimit (ledgerWith (95 * 1024 * 1024)) ''u'' (3 * 1024 * 1024))
        = Some (RemainingAfterUpload 2 2)"
proof -
  have a: "3 * 1024 * 1024 \<le> MAX_FILE_SIZE_BYTES"
    by (simp add: MAX_FILE_SIZE_BYTES_def)
  have b: "newUsagePercent (totalSizeBytes (getUserStorageUsage (ledgerWith (95 * 1024 * 1024)) ''u''))
        (3 * 1024 * 1024) \<ge> WARNING_THRESHOLD_PERCENT"
    by (simp add: usage_ledgerWith newUsagePercent_def MAX_TOTAL_STORAGE_BYTES_def
        WARNING_THRESHOLD_PERCENT_def)
  have c: "totalSizeBytes (getUserStorageUsage (ledgerWith (95 * 1024 * 1024)) ''u'')
        + 3 * 1024 * 1024 \<le> MAX_TOTAL_STORAGE_BYTES"
    by (simp add: usage_ledgerWith MAX_TOTAL_STORAGE_BYTES_def)
  have d: "warningMessage (checkStorageLimit (ledgerWith (95 * 1024 * 1024)) ''u'' (3 * 1024 * 1024))
        = Some (RemainingAfterUpload 2 2)"
    by (simp add: checkStorageLimit_def Let_def usage_ledgerWith newUsagePercent_def
        MAX_TOTAL_STORAGE_BYTES_def MAX_FILE_SIZE_BYTES_def WARNING_THRESHOLD_PERCENT_def)
  from checkStorageLimit_warns_near_ceiling [OF a b c] a b c d show ?thesis
    by blast
qed

text \<open>
  C7 as stated fails: with 70MB used, a 15MB candidate brings the usage to 85MB, which
  reaches the warning threshold and stays under the total ceiling, yet the upload is
  refused (the per-object ceiling is checked first) and no warning is produced.
\<close>

theorem checkStorageLimit_warning_counterexample:
  "newUsagePercent (totalSizeBytes (getUserStorageUsage (ledgerWith (70 * 1024 * 1024)) ''u''))
        (15 * 1024 * 1024) \<ge> WARNING_THRESHOLD_PERCENT
   \<and> totalSizeBytes (getUserStorageUsage (ledgerWith (70 * 1024 * 1024)) ''u'')
        + 15 * 1024 * 1024 \<le> MAX_TOTAL_STORAGE_BYTES
   \<and> \<not> allowed (checkStorageLimit (ledgerWith (70 * 1024 * 1024)) ''u'' (15 * 1024 * 1024))
   \<and> warningMessage (checkStorageLimit (ledgerWith (70 * 1024 * 1024)) ''u'' (15 * 1024 * 1024))
        = None"
  by (simp add: checkStorageLimit_def Let_def usage_ledgerWith newUsagePercent_def
      MAX_TOTAL_STORAGE_BYTES_def MAX_FILE_SIZE_BYTES_def WARNING_THRESHOLD_PERCENT_def)

text \<open>
  C10. When both ledger queries fail (each throws, or resolves with an error and no
  data), \<open>getUserStorageUsage\<close> reports zero bytes instead of failing, so
  \<open>checkStorageLimit\<close> sees an empty account: every candidate within the per-object
  ceiling is allowed, whatever the owner really stores.
\<close>

theorem quota_check_fails_open:
  assumes "queryFailed (storage_images db owner)"
    and "queryFailed (tools db owner)"
  shows "totalSizeBytes (getUserStorageUsage db owner) = 0
         \<and> currentUsage (checkStorageLimit db owner candidateBytes) = 0
         \<and> allowed (checkStorageLimit db owner candidateBytes)
             = (candidateBytes \<le> MAX_FILE_SIZE_BYTES)"
proof -
  have zero: "totalSizeBytes (getUserStorageUsage db owner) = 0"
    using assms
    by (auto simp: getUserStorageUsage_def queryFailed_def sizeOrZero_def
        split: query_result.splits)
  have "MAX_FILE_SIZE_BYTES \<le> MAX_TOTAL_STORAGE_BYTES"
    by (simp add: MAX_FILE_SIZE_BYTES_def MAX_TOTAL_STORAGE_BYTES_def)
  with zero show ?thesis
    by (auto simp: checkStorageLimit_def Let_def)
qed

text \<open>
  With both queries failing, a 5MB candidate is allowed; the same candidate is refused
  when the ledger answers and reports 150MB in use.
\<close>

theorem quota_check_fails_open_witness:
  "queryFailed (storage_images ledgerDown ''u'')
   \<and> queryFailed (tools ledgerDown ''u'')
   \<and> totalSizeBytes (getUserStorageUsage ledgerDown ''u'') = 0
   \<and> allowed (checkStorageLimit ledgerDown ''u'' (5 * 1024 * 1024))
   \<and> \<not> allowed (checkStorageLimit (ledgerWith (150 * 1024 * 1024)) ''u'' (5 * 1024 * 1024))"
proof -
  have a: "queryFailed (storage_images ledgerDown ''u'')"
    by (simp add: queryFailed_def ledgerDown_def)
  have b: "queryFailed (tools ledgerDown ''u'')"
    by (simp add: queryFailed_def ledgerDown_def)
  have c: "(5 * 1024 * 1024 :: rat) \<le> MAX_FILE_SIZE_BYTES"
    by (simp add: MAX_FILE_SIZE_BYTES_def)
  have d: "\<not> allowed (checkStorageLimit (ledgerWith (150 * 1024 * 1024)) ''u'' (5 * 1024 * 1024))"
    by (simp add: checkStorageLimit_def Let_def usage_ledgerWith MAX_FILE_SIZE_BYTES_def
        MAX_TOTAL_STORAGE_BYTES_def)
  from quota_check_fails_open [OF a b, of "5 * 1024 * 1024"] a b c d show ?thesis
    by simp
qed

section \<open>Properties of the validator\<close>

lemma extractExtensionFromUri_valid:
  "extractExtensionFromUri u \<in> set validExtensions"
  by (simp add: extractExtensionFromUri_def Let_def validExtensions_def)

lemma validateImageFile_format_check_dead:
  "verror (validateImageFile u s m) \<noteq> Some InvalidFormat"
  using extractExtensionFromUri_valid [of u]
  by (auto simp: validateImageFile_def Let_def validExtensions_def allowedFormats_def
      split: option.splits)

lemma validateImageFile_uri_only:
  "validateImageFile u None None = \<lparr>valid = True, verror = None\<rparr>"
  using extractExtensionFromUri_valid [of u]
  by (simp add: validateImageFile_def Let_def validExtensions_def allowedFormats_def)

text \<open>
  C2. The claim is that a reference whose trailing segment has an extension outside the
  allow-list fails validation. The format check of \<open>validateImageFile\<close> never fires,
  because \<open>extractExtensionFromUri\<close> has already replaced every unrecognised extension
  by \<open>jpg\<close>: a reference ending in \<open>.bmp\<close> is reported valid.
\<close>

theorem validateImageFile_accepts_bmp:
  "pop (split CHR ''.'' ''file:///photos/scan.bmp'') = Some ''bmp''
   \<and> ''bmp'' \<notin> set allowedFormats
   \<and> extractExtensionFromUri ''file:///photos/scan.bmp'' = ''jpg''
   \<and> validateImageFile ''file:///photos/scan.bmp'' None None = \<lparr>valid = True, verror = None\<rparr>"
  by (simp add: validateImageFile_def extractExtensionFromUri_def Let_def pop_def
      toLowerCase_def toLowerCaseChar_def validExtensions_def allowedFormats_def)

section \<open>Properties of the compressor\<close>

subsection \<open>Rounding to a double\<close>

lemma expoUp_bounds:
  "1 \<le> x \<Longrightarrow> 0 \<le> expoUp x \<and> 2 powi (expoUp x) \<le> x \<and> x < 2 powi (expoUp x + 1)"
proof (induction x rule: expoUp.induct)
  case (1 x)
  show ?case
  proof (cases "x < 2")
    case True
    then show ?thesis using "1.prems" by (simp add: expoUp.simps [of x])
  next
    case False
    then have h: "1 \<le> x / 2" by simp
    from "1.IH" [OF False h] have ih: "0 \<le> expoUp (x / 2)"
      "2 powi (expoUp (x / 2)) \<le> x / 2" "x / 2 < 2 powi (expoUp (x / 2) + 1)"
      by simp_all
    have e: "expoUp x = 1 + expoUp (x / 2)" using False by (simp add: expoUp.simps [of x])
    have p: "2 powi (1 + expoUp (x / 2)) = 2 * (2 powi (expoUp (x / 2)) :: rat)"
      "2 powi (1 + expoUp (x / 2) + 1) = 2 * (2 powi (expoUp (x / 2) + 1) :: rat)"
      by (simp_all add: power_int_add)
    show ?thesis unfolding e p using ih by simp
  qed
qed

lemma expoDown_bounds:
  "0 < x \<Longrightarrow> x < 1 \<Longrightarrow> 2 powi (expoDown x) \<le> x \<and> x < 2 powi (expoDown x + 1)"
proof (induction x rule: expoDown.induct)
  case (1 x)
  have e: "expoDown x = expoDown (2 * x) - 1"
    using "1.prems" by (simp add: expoDown.simps [of x])
  have c: "\<not> (x \<le> 0 \<or> 1 \<le> x)" using "1.prems" by simp
  show ?case
  proof (cases "2 * x < 1")
    case True
    from "1.IH" [OF c _ True] "1.prems" have ih:
      "2 powi (expoDown (2 * x)) \<le> 2 * x" "2 * x < 2 powi (expoDown (2 * x) + 1)"
      by simp_all
    have p: "2 powi (expoDown (2 * x) - 1) = (2 powi (expoDown (2 * x)) :: rat) / 2"
      "2 powi (expoDown (2 * x) - 1 + 1) = (2 powi (expoDown (2 * x) + 1) :: rat) / 2"
      by (simp_all add: power_int_diff power_int_add)
    show ?thesis unfolding e p using ih by simp
  next
    case False
    then have "expoDown (2 * x) = 0" by (simp add: expoDown.simps [of "2 * x"])
    then show ?thesis unfolding e using False "1.prems" by simp
  qed
qed

lemma exponent_bounds:
  assumes "0 < x"
  shows "2 powi (exponent x) \<le> x" "x < 2 powi (exponent x + 1)"
  using assms expoUp_bounds [of x] expoDown_bounds [of x]
  by (auto simp: exponent_def not_le)

lemma pow2_pos: "0 < (2 powi e :: rat)"
  by (simp add: power_int_def)

lemma pow2_mono: "a \<le> b \<Longrightarrow> (2 powi a :: rat) \<le> 2 powi b"
  by (rule power_int_increasing) simp_all

lemma pow2_less_iff: "(2 powi a :: rat) < 2 powi b \<longleftrightarrow> a < b"
  by (metis pow2_mono not_le order_less_le power_int_strict_increasing one_less_numeral_iff semiring_norm(76))

lemma roundEven_cases: "roundEven y = \<lfloor>y\<rfloor> \<or> roundEven y = \<lfloor>y\<rfloor> + 1"
  by (simp add: roundEven_def Let_def)

lemma roundEven_near: "\<bar>of_int (roundEven y) - y\<bar> \<le> 1 / 2"
proof -
  have "of_int \<lfloor>y\<rfloor> \<le> y" "y < of_int \<lfloor>y\<rfloor> + 1" by linarith+
  then show ?thesis by (auto simp: roundEven_def Let_def)
qed

lemma roundEven_int: "roundEven (of_int n) = n"
  by (simp add: roundEven_def Let_def)

lemma roundEven_ge: "of_int m \<le> y \<Longrightarrow> m \<le> roundEven y"
proof -
  assume "of_int m \<le> y"
  then have "m \<le> \<lfloor>y\<rfloor>" by (simp add: le_floor_iff)
  then show ?thesis using roundEven_cases [of y] by auto
qed

lemma roundEven_le: "y \<le> of_int m \<Longrightarrow> roundEven y \<le> m"
proof (cases "y = of_int m")
  case True
  then show ?thesis by (simp add: roundEven_int)
next
  case False
  assume "y \<le> of_int m"
  with False have "y < of_int m" by simp
  then have "\<lfloor>y\<rfloor> < m" by (simp add: floor_less_iff)
  then show ?thesis using roundEven_cases [of y] by auto
qed

lemma roundEven_mono: "y \<le> z \<Longrightarrow> roundEven y \<le> roundEven z"
proof (cases "\<lfloor>y\<rfloor> = \<lfloor>z\<rfloor>")
  case True
  assume "y \<le> z"
  then have "y - of_int \<lfloor>z\<rfloor> \<le> z - of_int \<lfloor>z\<rfloor>" by simp
  then show ?thesis using True by (auto simp: roundEven_def Let_def)
next
  case False
  assume "y \<le> z"
  then have "\<lfloor>y\<rfloor> \<le> \<lfloor>z\<rfloor>" by (rule floor_mono)
  with False have "\<lfloor>y\<rfloor> + 1 \<le> \<lfloor>z\<rfloor>" by simp
  then show ?thesis using roundEven_cases [of y] roundEven_cases [of z] by auto
qed

lemma exponent_unique:
  assumes "2 powi e \<le> x" and "x < 2 powi (e + 1)"
  shows "exponent x = e"
proof -
  have x: "0 < x" by (rule less_le_trans [OF pow2_pos assms(1)])
  note b = exponent_bounds [OF x]
  have "(2 powi e :: rat) < 2 powi (exponent x + 1)" using assms(1) b(2) by (rule le_less_trans)
  then have 1: "e < exponent x + 1" by (simp only: pow2_less_iff)
  have "(2 powi (exponent x) :: rat) < 2 powi (e + 1)" using b(1) assms(2) by (rule le_less_trans)
  then have 2: "exponent x < e + 1" by (simp only: pow2_less_iff)
  from 1 2 show ?thesis by simp
qed

lemma exponent_mono:
  assumes "0 < x" and "x \<le> y"
  shows "exponent x \<le> exponent y"
proof -
  have y: "0 < y" using assms by simp
  have "(2 powi (exponent x) :: rat) < 2 powi (exponent y + 1)"
    using exponent_bounds(1) [OF assms(1)] exponent_bounds(2) [OF y] assms(2) by linarith
  then have "exponent x < exponent y + 1" by (simp only: pow2_less_iff)
  then show ?thesis by simp
qed

lemma pow2_split: "(2 powi (e + 1) :: rat) = 2 ^ 53 * 2 powi (e - 52)"
proof -
  have "e + 1 = 53 + (e - 52)" by simp
  then have "(2 powi (e + 1) :: rat) = 2 powi (53 + (e - 52))" by (simp only:)
  also have "\<dots> = 2 powi 53 * 2 powi (e - 52)" by (rule power_int_add) simp
  finally show ?thesis by simp
qed

lemma pow2_split0: "(2 powi e :: rat) = 2 ^ 52 * 2 powi (e - 52)"
proof -
  have "e = 52 + (e - 52)" by simp
  then have "(2 powi e :: rat) = 2 powi (52 + (e - 52))" by (simp only:)
  also have "\<dots> = 2 powi 52 * 2 powi (e - 52)" by (rule power_int_add) simp
  finally show ?thesis by simp
qed

lemma nearest_bounds:
  assumes "0 < x"
  shows "2 powi (exponent x) \<le> nearest x" "nearest x \<le> 2 powi (exponent x + 1)"
proof -
  let ?s = "2 powi (exponent x - 52) :: rat"
  have s: "0 < ?s" by (rule pow2_pos)
  note b = exponent_bounds [OF assms]
  have "2 ^ 52 * ?s \<le> x" using b(1) by (simp only: pow2_split0 [symmetric])
  then have "of_int (2 ^ 52) \<le> x / ?s" using s by (simp add: le_divide_eq)
  then have "2 ^ 52 \<le> roundEven (x / ?s)" by (rule roundEven_ge)
  then have "(2 ^ 52 :: rat) \<le> of_int (roundEven (x / ?s))"
    by (metis of_int_le_iff of_int_numeral of_int_power)
  then have "2 ^ 52 * ?s \<le> of_int (roundEven (x / ?s)) * ?s" using s by simp
  then show "2 powi (exponent x) \<le> nearest x"
    by (simp only: nearest_def pow2_split0 [symmetric])
  have "x < 2 ^ 53 * ?s" using b(2) by (simp only: pow2_split [symmetric])
  then have "x / ?s \<le> of_int (2 ^ 53)" using s by (simp add: divide_le_eq)
  then have "roundEven (x / ?s) \<le> 2 ^ 53" by (rule roundEven_le)
  then have "of_int (roundEven (x / ?s)) \<le> (2 ^ 53 :: rat)"
    by (metis of_int_le_iff of_int_numeral of_int_power)
  then have "of_int (roundEven (x / ?s)) * ?s \<le> 2 ^ 53 * ?s" using s by simp
  then show "nearest x \<le> 2 powi (exponent x + 1)"
    by (simp only: nearest_def pow2_split [symmetric])
qed

lemma nearest_error:
  assumes "0 < x"
  shows "\<bar>nearest x - x\<bar> \<le> x / 2 ^ 53"
proof -
  let ?s = "2 powi (exponent x - 52) :: rat"
  have s: "0 < ?s" by (rule pow2_pos)
  have "\<bar>of_int (roundEven (x / ?s)) - x / ?s\<bar> * ?s \<le> 1 / 2 * ?s"
    using roundEven_near [of "x / ?s"] s by (intro mult_right_mono) simp_all
  moreover have "\<bar>of_int (roundEven (x / ?s)) - x / ?s\<bar> * ?s = \<bar>nearest x - x\<bar>"
  proof -
    have "\<bar>of_int (roundEven (x / ?s)) - x / ?s\<bar> * ?s
            = \<bar>(of_int (roundEven (x / ?s)) - x / ?s) * ?s\<bar>"
      using s by (simp add: abs_mult)
    also have "(of_int (roundEven (x / ?s)) - x / ?s) * ?s = nearest x - x"
      using s by (simp add: nearest_def algebra_simps)
    finally show ?thesis .
  qed
  ultimately have e: "\<bar>nearest x - x\<bar> \<le> ?s / 2" by simp
  have "2 ^ 52 * ?s \<le> x"
    using exponent_bounds(1) [OF assms] by (simp only: pow2_split0 [symmetric])
  then have "?s / 2 \<le> x / 2 ^ 53" by simp
  with e show ?thesis by simp
qed

lemma nearest_mono:
  assumes "0 < x" and "x \<le> y"
  shows "nearest x \<le> nearest y"
proof (cases "exponent x = exponent y")
  case True
  have s: "0 < (2 powi (exponent y - 52) :: rat)" by (rule pow2_pos)
  have "x / 2 powi (exponent y - 52) \<le> y / 2 powi (exponent y - 52)"
    using assms(2) s by (simp add: divide_right_mono)
  then have "roundEven (x / 2 powi (exponent y - 52)) \<le> roundEven (y / 2 powi (exponent y - 52))"
    by (rule roundEven_mono)
  then show ?thesis using s by (simp add: nearest_def True)
next
  case False
  have y: "0 < y" using assms by simp
  from False exponent_mono [OF assms] have "exponent x + 1 \<le> exponent y" by simp
  then have "(2 powi (exponent x + 1) :: rat) \<le> 2 powi (exponent y)" by (rule pow2_mono)
  then show ?thesis
    using nearest_bounds(2) [OF assms(1)] nearest_bounds(1) [OF y] by simp
qed

lemma nearest_int:
  assumes "1 \<le> n" and "n < 2 ^ 53"
  shows "nearest (of_int n) = of_int n"
proof -
  let ?e = "exponent (of_int n)"
  have x: "0 < (of_int n :: rat)" using assms(1) by simp
  have "(2 powi ?e :: rat) \<le> of_int n" by (rule exponent_bounds(1) [OF x])
  also have "(of_int n :: rat) < 2 powi 53"
    using assms(2) by (metis of_int_less_iff of_int_numeral of_int_power power_int_numeral)
  finally have "?e < 53" by (simp only: pow2_less_iff)
  then have k: "0 \<le> 52 - ?e" by simp
  have s: "(2 powi (?e - 52) :: rat) = 1 / 2 ^ nat (52 - ?e)"
  proof -
    have "(2 powi (?e - 52) :: rat) = 2 powi (- (52 - ?e))" by simp
    also have "\<dots> = 1 / 2 powi (52 - ?e)" by (rule power_int_minus_divide)
    also have "(2 powi (52 - ?e) :: rat) = 2 ^ nat (52 - ?e)"
      using k by (simp add: power_int_def)
    finally show ?thesis .
  qed
  have "(of_int n :: rat) / 2 powi (?e - 52) = of_int (n * 2 ^ nat (52 - ?e))"
    by (simp add: s)
  then have "roundEven (of_int n / 2 powi (?e - 52)) = n * 2 ^ nat (52 - ?e)"
    by (simp only: roundEven_int)
  then show ?thesis by (simp add: nearest_def s)
qed

lemma toDouble_normal:
  assumes "2 powi (- 1022) \<le> x" and "x < 2 powi 1023"
  shows "toDouble x = Fin (nearest x)"
proof -
  have x: "0 < x" by (rule less_le_trans [OF pow2_pos assms(1)])
  have "(2 powi (- 1022) :: rat) < 2 powi (exponent x + 1)"
    using assms(1) exponent_bounds(2) [OF x] by (rule le_less_trans)
  then have "- 1022 < exponent x + 1" by (simp only: pow2_less_iff)
  then have lo: "- 1022 \<le> exponent x" by simp
  have "(2 powi (exponent x) :: rat) < 2 powi 1023"
    using exponent_bounds(1) [OF x] assms(2) by (rule le_less_trans)
  then have "exponent x < 1023" by (simp only: pow2_less_iff)
  then have "exponent x + 1 \<le> 1023" by simp
  then have "(2 powi (exponent x + 1) :: rat) \<le> 2 powi 1023" by (rule pow2_mono)
  moreover have "(1023 :: int) < 1024" by simp
  then have "(2 powi 1023 :: rat) < 2 powi 1024" by (simp only: pow2_less_iff)
  ultimately have hi: "nearest x < 2 powi 1024"
    using nearest_bounds(2) [OF x] by simp
  have m: "max (exponent x) (- 1022) = exponent x" using lo by simp
  show ?thesis
    using x hi by (simp add: toDouble_def Let_def m nearest_def [symmetric] not_le del: power_int_numeral)
qed

subsection \<open>The resize request\<close>

lemma pow2_small: "(2 powi (- 1022) :: rat) \<le> 1 / 2 ^ 32"
proof -
  have "(2 powi (- 1022) :: rat) \<le> 2 powi (- 32)" by (rule pow2_mono) simp
  also have "(2 powi (- 32) :: rat) = 1 / 2 powi 32" by (rule power_int_minus_divide)
  finally show ?thesis by simp
qed

lemma pow2_large: "(2 ^ 31 :: rat) < 2 powi 1023"
proof -
  have "(31 :: int) < 1023" by simp
  then have "(2 powi 31 :: rat) < 2 powi 1023" by (simp only: pow2_less_iff)
  then show ?thesis by simp
qed

lemma toDouble_midrange:
  assumes "1 / 2 ^ 32 \<le> x" and "x \<le> 2 ^ 31"
  shows "toDouble x = Fin (nearest x)"
  using toDouble_normal [of x] assms pow2_small pow2_large by simp

lemma nearest_one: "nearest 1 = 1"
  using nearest_int [of 1] by simp

text \<open>One dimension \<open>d\<close> scaled by the double nearest to \<open>q\<close>.\<close>

lemma scaled_dimension:
  assumes d: "1 \<le> d" "d \<le> 2 ^ 31"
    and q: "1 / 2 ^ 31 \<le> q" "q < 1"
  shows "jsTimes (of_int d) (Fin (nearest q)) = Fin (nearest (of_int d * nearest q))"
    and "\<lfloor>nearest (of_int d * nearest q) + 1 / 2\<rfloor> \<le> d"
    and "\<bar>of_int \<lfloor>nearest (of_int d * nearest q) + 1 / 2\<rfloor> - of_int d * q\<bar> < 1"
proof -
  let ?D = "of_int d :: rat"
  have q0: "0 < q" using q(1) by (rule less_le_trans [rotated]) simp
  have D: "1 \<le> ?D" "?D \<le> 2 ^ 31"
    using d by (simp, metis of_int_le_iff of_int_numeral of_int_power)
  have r1: "nearest q \<le> 1" using nearest_mono [OF q0, of 1] q(2) nearest_one by simp
  note eq = nearest_error [OF q0]
  have rq: "\<bar>nearest q - q\<bar> \<le> q / 2 ^ 53" by (rule eq)
  have rlo: "q / 2 \<le> nearest q"
  proof -
    have "q / 2 ^ 53 \<le> q / 2" using q0 by (intro divide_left_mono) simp_all
    moreover have "q - nearest q \<le> \<bar>nearest q - q\<bar>" by simp
    ultimately show ?thesis using rq by linarith
  qed
  have r0: "0 < nearest q" using rlo q0 by simp
  have p0: "0 < ?D * nearest q" using D r0 by simp
  have plo: "1 / 2 ^ 32 \<le> ?D * nearest q"
  proof -
    have "1 / 2 ^ 32 \<le> q / 2" using q(1) by simp
    also have "\<dots> \<le> nearest q" by (rule rlo)
    also have "\<dots> \<le> ?D * nearest q" using D(1) r0 by simp
    finally show ?thesis .
  qed
  have phi: "?D * nearest q \<le> ?D" using D r1 r0 by simp
  then have phi2: "?D * nearest q \<le> 2 ^ 31" using D(2) by simp
  show "jsTimes (of_int d) (Fin (nearest q)) = Fin (nearest (of_int d * nearest q))"
    by (simp add: jsTimes_def toDouble_midrange [OF plo phi2])
  have dd: "nearest ?D = ?D"
    by (rule nearest_int) (use d in simp_all)
  have le: "nearest (?D * nearest q) \<le> ?D"
    using nearest_mono [OF p0 phi] dd by simp
  then show "\<lfloor>nearest (of_int d * nearest q) + 1 / 2\<rfloor> \<le> d" by linarith
  have e1: "\<bar>nearest (?D * nearest q) - ?D * nearest q\<bar> \<le> ?D * nearest q / 2 ^ 53"
    by (rule nearest_error [OF p0])
  have e1': "\<bar>nearest (?D * nearest q) - ?D * nearest q\<bar> \<le> 2 ^ 31 / 2 ^ 53"
    using e1 phi2 by simp
  have e2: "\<bar>?D * nearest q - ?D * q\<bar> \<le> 2 ^ 31 / 2 ^ 53"
  proof -
    have "\<bar>?D * nearest q - ?D * q\<bar> = ?D * \<bar>nearest q - q\<bar>"
      using D(1) by (simp add: abs_mult flip: right_diff_distrib)
    also have "\<dots> \<le> ?D * (q / 2 ^ 53)" using rq D(1) by (intro mult_left_mono) simp_all
    also have "\<dots> \<le> 2 ^ 31 * (1 / 2 ^ 53)"
      using D q q0 by (intro mult_mono) simp_all
    finally show ?thesis by simp
  qed
  have e3: "\<bar>of_int \<lfloor>nearest (?D * nearest q) + 1 / 2\<rfloor> - nearest (?D * nearest q)\<bar> \<le> 1 / 2"
    by linarith
  have tri: "\<bar>a - t\<bar> \<le> \<bar>a - b\<bar> + \<bar>b - c\<bar> + \<bar>c - t\<bar>" for a b c t :: rat
    by linarith
  have small: "(1 / 2 + 2 ^ 31 / 2 ^ 53 + 2 ^ 31 / 2 ^ 53 :: rat) < 1" by simp
  have "\<bar>of_int \<lfloor>nearest (?D * nearest q) + 1 / 2\<rfloor> - ?D * q\<bar>
          \<le> \<bar>of_int \<lfloor>nearest (?D * nearest q) + 1 / 2\<rfloor> - nearest (?D * nearest q)\<bar>
            + \<bar>nearest (?D * nearest q) - ?D * nearest q\<bar>
            + \<bar>?D * nearest q - ?D * q\<bar>"
    by (rule tri)
  also have "\<dots> \<le> 1 / 2 + 2 ^ 31 / 2 ^ 53 + 2 ^ 31 / 2 ^ 53"
    using e3 e1' e2 by (intro add_mono)
  also have "\<dots> < 1" by (rule small)
  finally show "\<bar>of_int \<lfloor>nearest (of_int d * nearest q) + 1 / 2\<rfloor> - of_int d * q\<bar> < 1" .
qed


lemma roundEven_eqI:
  assumes "\<bar>y - of_int n\<bar> < 1 / 2"
  shows "roundEven y = n"
proof (cases "of_int n \<le> y")
  case True
  then have "\<lfloor>y\<rfloor> = n" using assms by (simp add: floor_eq_iff abs_less_iff)
  then show ?thesis using assms True by (simp add: roundEven_def Let_def abs_less_iff)
next
  case False
  then have "\<lfloor>y\<rfloor> = n - 1" using assms by (simp add: floor_eq_iff abs_less_iff)
  then show ?thesis using assms False by (auto simp: roundEven_def Let_def abs_less_iff)
qed

lemma nearest_eqI:
  assumes "2 powi e \<le> x" and "x < 2 powi (e + 1)"
    and "\<bar>x / 2 powi (e - 52) - of_int n\<bar> < 1 / 2"
  shows "nearest x = of_int n * 2 powi (e - 52)"
  using assms(3) by (simp add: nearest_def exponent_unique [OF assms(1,2)] roundEven_eqI)

lemma sample_ratio: "nearest (15 / 26) = 2598230554252209 / 4503599627370496"
  using nearest_eqI [of "- 1" "15 / 26" 5196461108504418]
  by (simp add: power_int_minus_divide)

lemma sample_width:
  "nearest (5775866522102660607 / 4503599627370496) = 5640494650490879 / 4398046511104"
  using nearest_eqI [of 10 "5775866522102660607 / 4503599627370496" 5640494650490879]
  by (simp add: power_int_minus_divide)

lemma sample_height:
  "nearest (33776997205278717 / 17592186044416) = 8444249301319679 / 4398046511104"
  using nearest_eqI [of 10 "33776997205278717 / 17592186044416" 8444249301319679]
  by (simp add: power_int_minus_divide)

lemma quotient_range:
  fixes m :: rat
  assumes "1 \<le> d" "d \<le> 2 ^ 31" "1 \<le> m" "m \<le> 2 ^ 31"
  shows "1 / 2 ^ 31 \<le> m / of_int d" "m / of_int d \<le> 2 ^ 31"
proof -
  have D: "(1 :: rat) \<le> of_int d" "(of_int d :: rat) \<le> 2 ^ 31"
    using assms(1,2) by (simp, metis of_int_le_iff of_int_numeral of_int_power)
  have "1 / 2 ^ 31 \<le> 1 / (of_int d :: rat)" using D by (intro divide_left_mono) simp_all
  also have "\<dots> \<le> m / of_int d" using assms(3) D by (intro divide_right_mono) simp_all
  finally show "1 / 2 ^ 31 \<le> m / of_int d" .
  have "m / of_int d \<le> m / 1" using assms(3) D by (intro divide_left_mono) simp_all
  then show "m / of_int d \<le> 2 ^ 31" using assms(4) by simp
qed

lemma scaleRatio_nearest:
  assumes "1 \<le> w" "w \<le> 2 ^ 31" "1 \<le> h" "h \<le> 2 ^ 31"
    and "1 \<le> optMaxWidth opts" "optMaxWidth opts \<le> 2 ^ 31"
    and "1 \<le> optMaxHeight opts" "optMaxHeight opts \<le> 2 ^ 31"
  shows "scaleRatio opts w h
           = Fin (nearest (min (optMaxWidth opts / of_int w) (optMaxHeight opts / of_int h)))"
    and "scaleRatio opts w h
           = toDouble (min (optMaxWidth opts / of_int w) (optMaxHeight opts / of_int h))"
    and "1 / 2 ^ 31 \<le> min (optMaxWidth opts / of_int w) (optMaxHeight opts / of_int h)"
proof -
  let ?q1 = "optMaxWidth opts / of_int w" and ?q2 = "optMaxHeight opts / of_int h"
  note r1 = quotient_range [OF assms(1,2,5,6)]
  note r2 = quotient_range [OF assms(3,4,7,8)]
  have lo: "(1 / 2 ^ 32 :: rat) \<le> 1 / 2 ^ 31" by simp
  have q1: "0 < ?q1" using r1(1) by (rule less_le_trans [rotated]) simp
  have q2: "0 < ?q2" using r2(1) by (rule less_le_trans [rotated]) simp
  have w0: "(of_int w :: rat) \<noteq> 0" and h0: "(of_int h :: rat) \<noteq> 0"
    using assms(1,3) by simp_all
  have d1: "jsDivide (optMaxWidth opts) (of_int w) = Fin (nearest ?q1)"
    using toDouble_midrange [OF order_trans [OF lo r1(1)] r1(2)] w0 by (simp add: jsDivide_def)
  have d2: "jsDivide (optMaxHeight opts) (of_int h) = Fin (nearest ?q2)"
    using toDouble_midrange [OF order_trans [OF lo r2(1)] r2(2)] h0 by (simp add: jsDivide_def)
  have m: "min (nearest ?q1) (nearest ?q2) = nearest (min ?q1 ?q2)"
  proof (cases "?q1 \<le> ?q2")
    case True
    then show ?thesis using nearest_mono [OF q1 True] by (simp add: min_def)
  next
    case False
    then have le: "?q2 \<le> ?q1" by simp
    show ?thesis using nearest_mono [OF q2 le] le by (simp add: min_def)
  qed
  show ratio: "scaleRatio opts w h = Fin (nearest (min ?q1 ?q2))"
    by (simp only: scaleRatio_def Let_def d1 d2 mathMin.simps m)
  show range: "1 / 2 ^ 31 \<le> min ?q1 ?q2"
    using r1(1) r2(1) by (simp only: min_def split: if_split) simp
  have "min ?q1 ?q2 \<le> ?q1" by (rule min.cobounded1)
  then have "min ?q1 ?q2 \<le> 2 ^ 31" using r1(2) by (rule order_trans)
  from toDouble_midrange [OF order_trans [OF lo range] this]
  show "scaleRatio opts w h = toDouble (min ?q1 ?q2)" by (simp only: ratio)
qed

lemma scaleFactor_less_one:
  assumes "1 \<le> w" "1 \<le> h"
    and "of_int w > optMaxWidth opts \<or> of_int h > optMaxHeight opts"
  shows "min (optMaxWidth opts / of_int w) (optMaxHeight opts / of_int h) < 1"
proof -
  have "optMaxWidth opts / of_int w < 1 \<or> optMaxHeight opts / of_int h < 1"
    using assms by (auto simp: divide_less_eq)
  then show ?thesis by (simp only: min_less_iff_disj)
qed

lemma resizeActions_scaled:
  assumes "1 \<le> w" "w \<le> 2 ^ 31" "1 \<le> h" "h \<le> 2 ^ 31"
    and "1 \<le> optMaxWidth opts" "optMaxWidth opts \<le> 2 ^ 31"
    and "1 \<le> optMaxHeight opts" "optMaxHeight opts \<le> 2 ^ 31"
    and big: "of_int w > optMaxWidth opts \<or> of_int h > optMaxHeight opts"
  shows "resizeActions opts w h =
           [Resize
              (Fin (of_int \<lfloor>nearest (of_int w
                 * nearest (min (optMaxWidth opts / of_int w) (optMaxHeight opts / of_int h)))
                 + 1 / 2\<rfloor>))
              (Fin (of_int \<lfloor>nearest (of_int h
                 * nearest (min (optMaxWidth opts / of_int w) (optMaxHeight opts / of_int h)))
                 + 1 / 2\<rfloor>))]"
proof -
  note sr = scaleRatio_nearest [OF assms(1-8)]
  note q1 = scaleFactor_less_one [OF assms(1,3) big]
  note tw = scaled_dimension(1) [OF assms(1,2) sr(3) q1]
  note th = scaled_dimension(1) [OF assms(3,4) sr(3) q1]
  have "resizeActions opts w h =
          [Resize (mathRound (jsTimes (of_int w) (scaleRatio opts w h)))
                  (mathRound (jsTimes (of_int h) (scaleRatio opts w h)))]"
    using big by (simp add: resizeActions_def Let_def)
  then show ?thesis
    by (simp only: sr(1) tw th mathRound_def number.case)
qed

text \<open>
  C5. Let the first codec call report the image \<open>info\<close>. If both its dimensions are
  within the maxima, \<open>compressImage\<close> makes no other codec call and returns that image
  (a re-encoding at the configured quality, without any action). If either dimension
  exceeds its maximum, and the dimensions and the maxima lie between 1 and \<open>2 ^ 31\<close>,
  then the scale factor \<open>ratio\<close> is the double nearest to
  \<open>min (maxWidth / width) (maxHeight / height)\<close>, which is below 1; the code makes exactly
  one more call, on the re-encoded image, whose only action is a resize to integer
  dimensions \<open>newWidth\<close> and \<open>newHeight\<close>; it returns the image this call resolves to
  (or rethrows its rejection); neither requested dimension exceeds the original (no
  upscaling); and each requested dimension is less than one pixel away from the
  original dimension times the exact factor, so the aspect ratio is kept within the
  rounding of one pixel.
\<close>

theorem compressImage_resize:
  assumes "manipulateAsync \<lparr>source = u, actions = [], compress = optQuality opts\<rparr> = Inr info"
  shows
    "(of_int (img_width info) \<le> optMaxWidth opts \<and> of_int (img_height info) \<le> optMaxHeight opts
        \<longrightarrow> compressImage manipulateAsync u opts =
              (Inr \<lparr>uri = img_uri info, width = img_width info, height = img_height info,
                    processedSize = 0\<rparr>,
               [\<lparr>source = u, actions = [], compress = optQuality opts\<rparr>]))
     \<and> ((of_int (img_width info) > optMaxWidth opts \<or> of_int (img_height info) > optMaxHeight opts)
          \<and> 1 \<le> img_width info \<and> img_width info \<le> 2 ^ 31
          \<and> 1 \<le> img_height info \<and> img_height info \<le> 2 ^ 31
          \<and> 1 \<le> optMaxWidth opts \<and> optMaxWidth opts \<le> 2 ^ 31
          \<and> 1 \<le> optMaxHeight opts \<and> optMaxHeight opts \<le> 2 ^ 31
        \<longrightarrow> (\<exists>newWidth newHeight.
              scaleRatio opts (img_width info) (img_height info)
                = toDouble (min (optMaxWidth opts / of_int (img_width info))
                                (optMaxHeight opts / of_int (img_height info)))
            \<and> min (optMaxWidth opts / of_int (img_width info))
                   (optMaxHeight opts / of_int (img_height info)) < 1
            \<and> resizeActions opts (img_width info) (img_height info)
                = [Resize (Fin (of_int newWidth)) (Fin (of_int newHeight))]
            \<and> snd (compressImage manipulateAsync u opts) =
                [\<lparr>source = u, actions = [], compress = optQuality opts\<rparr>,
                 \<lparr>source = img_uri info,
                  actions = [Resize (Fin (of_int newWidth)) (Fin (of_int newHeight))],
                  compress = optQuality opts\<rparr>]
            \<and> fst (compressImage manipulateAsync u opts) =
                (case manipulateAsync
                        \<lparr>source = img_uri info,
                         actions = [Resize (Fin (of_int newWidth)) (Fin (of_int newHeight))],
                         compress = optQuality opts\<rparr> of
                   Inl e \<Rightarrow> Inl (''Image processing failed: '' @ e)
                 | Inr finalImage \<Rightarrow>
                     Inr \<lparr>uri = img_uri finalImage, width = img_width finalImage,
                          height = img_height finalImage, processedSize = 0\<rparr>)
            \<and> newWidth \<le> img_width info \<and> newHeight \<le> img_height info
            \<and> \<bar>of_int newWidth
                 - of_int (img_width info)
                   * min (optMaxWidth opts / of_int (img_width info))
                         (optMaxHeight opts / of_int (img_height info))\<bar> < 1
            \<and> \<bar>of_int newHeight
                 - of_int (img_height info)
                   * min (optMaxWidth opts / of_int (img_width info))
                         (optMaxHeight opts / of_int (img_height info))\<bar> < 1))"
proof (intro conjI impI)
  assume "of_int (img_width info) \<le> optMaxWidth opts \<and> of_int (img_height info) \<le> optMaxHeight opts"
  then show "compressImage manipulateAsync u opts =
              (Inr \<lparr>uri = img_uri info, width = img_width info, height = img_height info,
                    processedSize = 0\<rparr>,
               [\<lparr>source = u, actions = [], compress = optQuality opts\<rparr>])"
    using assms by (simp add: compressImage_def Let_def resizeActions_def)
next
  let ?w = "img_width info" and ?h = "img_height info"
  let ?q = "min (optMaxWidth opts / of_int ?w) (optMaxHeight opts / of_int ?h)"
  let ?nw = "\<lfloor>nearest (of_int ?w * nearest ?q) + 1 / 2\<rfloor>"
  let ?nh = "\<lfloor>nearest (of_int ?h * nearest ?q) + 1 / 2\<rfloor>"
  assume h: "(of_int ?w > optMaxWidth opts \<or> of_int ?h > optMaxHeight opts)
          \<and> 1 \<le> ?w \<and> ?w \<le> 2 ^ 31 \<and> 1 \<le> ?h \<and> ?h \<le> 2 ^ 31
          \<and> 1 \<le> optMaxWidth opts \<and> optMaxWidth opts \<le> 2 ^ 31
          \<and> 1 \<le> optMaxHeight opts \<and> optMaxHeight opts \<le> 2 ^ 31"
  then have big: "of_int ?w > optMaxWidth opts \<or> of_int ?h > optMaxHeight opts"
    and w: "1 \<le> ?w" "?w \<le> 2 ^ 31" and hh: "1 \<le> ?h" "?h \<le> 2 ^ 31"
    and mw: "1 \<le> optMaxWidth opts" "optMaxWidth opts \<le> 2 ^ 31"
    and mh: "1 \<le> optMaxHeight opts" "optMaxHeight opts \<le> 2 ^ 31"
    by simp_all
  note sr = scaleRatio_nearest [OF w hh mw mh]
  note q1 = scaleFactor_less_one [OF w(1) hh(1) big]
  note acts = resizeActions_scaled [OF w hh mw mh big]
  note dw = scaled_dimension [OF w sr(3) q1]
  note dh = scaled_dimension [OF hh sr(3) q1]
  have calls: "snd (compressImage manipulateAsync u opts) =
                [\<lparr>source = u, actions = [], compress = optQuality opts\<rparr>,
                 \<lparr>source = img_uri info,
                  actions = [Resize (Fin (of_int ?nw)) (Fin (of_int ?nh))],
                  compress = optQuality opts\<rparr>]"
    using assms by (simp add: compressImage_def Let_def acts split: sum.splits)
  have out: "fst (compressImage manipulateAsync u opts) =
                (case manipulateAsync
                        \<lparr>source = img_uri info,
                         actions = [Resize (Fin (of_int ?nw)) (Fin (of_int ?nh))],
                         compress = optQuality opts\<rparr> of
                   Inl e \<Rightarrow> Inl (''Image processing failed: '' @ e)
                 | Inr finalImage \<Rightarrow>
                     Inr \<lparr>uri = img_uri finalImage, width = img_width finalImage,
                          height = img_height finalImage, processedSize = 0\<rparr>)"
    using assms by (simp add: compressImage_def Let_def acts split: sum.splits)
  show "\<exists>newWidth newHeight.
              scaleRatio opts ?w ?h = toDouble ?q
            \<and> ?q < 1
            \<and> resizeActions opts ?w ?h = [Resize (Fin (of_int newWidth)) (Fin (of_int newHeight))]
            \<and> snd (compressImage manipulateAsync u opts) =
                [\<lparr>source = u, actions = [], compress = optQuality opts\<rparr>,
                 \<lparr>source = img_uri info,
                  actions = [Resize (Fin (of_int newWidth)) (Fin (of_int newHeight))],
                  compress = optQuality opts\<rparr>]
            \<and> fst (compressImage manipulateAsync u opts) =
                (case manipulateAsync
                        \<lparr>source = img_uri info,
                         actions = [Resize (Fin (of_int newWidth)) (Fin (of_int newHeight))],
                         compress = optQuality opts\<rparr> of
                   Inl e \<Rightarrow> Inl (''Image processing failed: '' @ e)
                 | Inr finalImage \<Rightarrow>
                     Inr \<lparr>uri = img_uri finalImage, width = img_width finalImage,
                          height = img_height finalImage, processedSize = 0\<rparr>)
            \<and> newWidth \<le> ?w \<and> newHeight \<le> ?h
            \<and> \<bar>of_int newWidth - of_int ?w * ?q\<bar> < 1
            \<and> \<bar>of_int newHeight - of_int ?h * ?q\<bar> < 1"
    using sr(2) q1 acts calls out dw(2) dh(2) dw(3) dh(3)
    by (intro exI [of _ ?nw] exI [of _ ?nh] conjI)
qed

lemma sample_opts:
  "optMaxWidth pipelineProfile = 1920" "optMaxHeight pipelineProfile = 1920"
  "optQuality pipelineProfile = 8 / 10"
  by (simp_all add: optMaxWidth_def optMaxHeight_def optQuality_def pipelineProfile_def)

lemma sample_scaleRatio:
  "scaleRatio pipelineProfile 2223 3328 = Fin (2598230554252209 / 4503599627370496)"
  using scaleRatio_nearest(1) [of 2223 3328 pipelineProfile]
  by (simp add: sample_opts min_def sample_ratio)

lemma sample_newWidth:
  "mathRound (jsTimes 2223 (Fin (2598230554252209 / 4503599627370496))) = Fin 1282"
proof -
  have "jsTimes 2223 (Fin (2598230554252209 / 4503599627370496))
          = Fin (5640494650490879 / 4398046511104)"
    by (simp add: jsTimes_def toDouble_midrange sample_width)
  moreover have "\<lfloor>(5640494650490879 / 4398046511104 :: rat) + 1 / 2\<rfloor> = 1282"
    by (simp add: floor_eq_iff)
  ultimately show ?thesis by (simp only: mathRound_def number.case) simp
qed

lemma sample_newHeight:
  "mathRound (jsTimes 3328 (Fin (2598230554252209 / 4503599627370496))) = Fin 1920"
proof -
  have "jsTimes 3328 (Fin (2598230554252209 / 4503599627370496))
          = Fin (8444249301319679 / 4398046511104)"
    by (simp add: jsTimes_def toDouble_midrange sample_height)
  moreover have "\<lfloor>(8444249301319679 / 4398046511104 :: rat) + 1 / 2\<rfloor> = 1920"
    by (simp add: floor_eq_iff)
  ultimately show ?thesis by (simp only: mathRound_def number.case) simp
qed

lemma sample_resizeActions:
  "resizeActions pipelineProfile 2223 3328 = [Resize (Fin 1282) (Fin 1920)]"
  by (simp add: resizeActions_def Let_def sample_opts sample_scaleRatio
      sample_newWidth sample_newHeight)

text \<open>
  A 2223 x 3328 image under the pipeline's 1920 x 1920 profile: the height quotient
  \<open>1920 / 3328 = 15 / 26\<close> rounds to the double \<open>2598230554252209 / 2 ^ 52\<close>, the width
  times it rounds to \<open>1282.5 - 2 ^ -42\<close>, so the request is 1282 x 1920 (the exact
  product \<open>2223 * 15 / 26 = 1282.5\<close> would round to 1283). An 800 x 600 image is only
  re-encoded.
\<close>

theorem compressImage_resize_witness:
  "sampleCodec 2223 3328
      \<lparr>source = ''file:///photo.jpg'', actions = [], compress = optQuality pipelineProfile\<rparr>
     = Inr \<lparr>img_uri = ''file:///cache/first.jpg'', img_width = 2223, img_height = 3328\<rparr>
   \<and> (3328::rat) > optMaxHeight pipelineProfile
   \<and> scaleRatio pipelineProfile 2223 3328 = Fin (2598230554252209 / 4503599627370496)
   \<and> resizeActions pipelineProfile 2223 3328 = [Resize (Fin 1282) (Fin 1920)]
   \<and> compressImage (sampleCodec 2223 3328) ''file:///photo.jpg'' pipelineProfile =
        (Inr \<lparr>uri = ''file:///cache/resized.jpg'', width = 1282, height = 1920,
              processedSize = 0\<rparr>,
         [\<lparr>source = ''file:///photo.jpg'', actions = [], compress = 8 / 10\<rparr>,
          \<lparr>source = ''file:///cache/first.jpg'', actions = [Resize (Fin 1282) (Fin 1920)],
           compress = 8 / 10\<rparr>])
   \<and> sampleCodec 800 600
      \<lparr>source = ''file:///photo.jpg'', actions = [], compress = optQuality pipelineProfile\<rparr>
     = Inr \<lparr>img_uri = ''file:///cache/first.jpg'', img_width = 800, img_height = 600\<rparr>
   \<and> (800::rat) \<le> optMaxWidth pipelineProfile \<and> (600::rat) \<le> optMaxHeight pipelineProfile
   \<and> compressImage (sampleCodec 800 600) ''file:///photo.jpg'' pipelineProfile =
        (Inr \<lparr>uri = ''file:///cache/first.jpg'', width = 800, height = 600, processedSize = 0\<rparr>,
         [\<lparr>source = ''file:///photo.jpg'', actions = [], compress = 8 / 10\<rparr>])"
proof -
  let ?info = "\<lparr>img_uri = ''file:///cache/first.jpg'', img_width = 2223, img_height = 3328\<rparr>"
  have big: "sampleCodec 2223 3328
      \<lparr>source = ''file:///photo.jpg'', actions = [], compress = optQuality pipelineProfile\<rparr>
     = Inr ?info"
    by (simp add: sampleCodec_def)
  have small: "sampleCodec 800 600
      \<lparr>source = ''file:///photo.jpg'', actions = [], compress = optQuality pipelineProfile\<rparr>
     = Inr \<lparr>img_uri = ''file:///cache/first.jpg'', img_width = 800, img_height = 600\<rparr>"
    by (simp add: sampleCodec_def)
  have hyp: "(of_int (img_width ?info) > optMaxWidth pipelineProfile
              \<or> of_int (img_height ?info) > optMaxHeight pipelineProfile)
          \<and> 1 \<le> img_width ?info \<and> img_width ?info \<le> 2 ^ 31
          \<and> 1 \<le> img_height ?info \<and> img_height ?info \<le> 2 ^ 31
          \<and> 1 \<le> optMaxWidth pipelineProfile \<and> optMaxWidth pipelineProfile \<le> 2 ^ 31
          \<and> 1 \<le> optMaxHeight pipelineProfile \<and> optMaxHeight pipelineProfile \<le> 2 ^ 31"
    by (simp add: sample_opts)
  note inst = compressImage_resize [of "sampleCodec 2223 3328" "''file:///photo.jpg''"
      pipelineProfile ?info, OF big]
  from inst [THEN conjunct2, THEN mp, OF hyp]
  obtain newWidth newHeight where
    acts: "resizeActions pipelineProfile (img_width ?info) (img_height ?info)
            = [Resize (Fin (of_int newWidth)) (Fin (of_int newHeight))]"
    and calls: "snd (compressImage (sampleCodec 2223 3328) ''file:///photo.jpg'' pipelineProfile) =
                [\<lparr>source = ''file:///photo.jpg'', actions = [],
                  compress = optQuality pipelineProfile\<rparr>,
                 \<lparr>source = img_uri ?info,
                  actions = [Resize (Fin (of_int newWidth)) (Fin (of_int newHeight))],
                  compress = optQuality pipelineProfile\<rparr>]"
    and out: "fst (compressImage (sampleCodec 2223 3328) ''file:///photo.jpg'' pipelineProfile) =
                (case sampleCodec 2223 3328
                        \<lparr>source = img_uri ?info,
                         actions = [Resize (Fin (of_int newWidth)) (Fin (of_int newHeight))],
                         compress = optQuality pipelineProfile\<rparr> of
                   Inl e \<Rightarrow> Inl (''Image processing failed: '' @ e)
                 | Inr finalImage \<Rightarrow>
                     Inr \<lparr>uri = img_uri finalImage, width = img_width finalImage,
                          height = img_height finalImage, processedSize = 0\<rparr>)"
    by blast
  from acts have n: "newWidth = 1282" "newHeight = 1920"
    by (simp_all add: sample_resizeActions)
  have resized: "compressImage (sampleCodec 2223 3328) ''file:///photo.jpg'' pipelineProfile =
        (Inr \<lparr>uri = ''file:///cache/resized.jpg'', width = 1282, height = 1920,
              processedSize = 0\<rparr>,
         [\<lparr>source = ''file:///photo.jpg'', actions = [], compress = 8 / 10\<rparr>,
          \<lparr>source = ''file:///cache/first.jpg'', actions = [Resize (Fin 1282) (Fin 1920)],
           compress = 8 / 10\<rparr>])"
    using calls out by (simp add: n sample_opts sampleCodec_def prod_eq_iff)
  from compressImage_resize [of "sampleCodec 800 600" "''file:///photo.jpg''" pipelineProfile
      "\<lparr>img_uri = ''file:///cache/first.jpg'', img_width = 800, img_height = 600\<rparr>", OF small]
  have kept: "compressImage (sampleCodec 800 600) ''file:///photo.jpg'' pipelineProfile =
        (Inr \<lparr>uri = ''file:///cache/first.jpg'', width = 800, height = 600, processedSize = 0\<rparr>,
         [\<lparr>source = ''file:///photo.jpg'', actions = [], compress = 8 / 10\<rparr>])"
    by (simp add: sample_opts)
  from resized kept big small show ?thesis
    by (simp add: sample_opts sample_scaleRatio sample_resizeActions)
qed

section \<open>Properties of the retry uploader\<close>

lemma storeCalls_simps:
  "storeCalls [] = []"
  "storeCalls (Upload r # evs) = r # storeCalls evs"
  "storeCalls (Progress p # evs) = storeCalls evs"
  "storeCalls (Sleep d # evs) = storeCalls evs"
  "storeCalls (xs @ ys) = storeCalls xs @ storeCalls ys"
  by (simp_all add: storeCalls_def)

lemma sleeps_simps:
  "sleeps [] = []"
  "sleeps (Sleep d # evs) = d # sleeps evs"
  "sleeps (Progress p # evs) = sleeps evs"
  "sleeps (Upload r # evs) = sleeps evs"
  "sleeps (xs @ ys) = sleeps xs @ sleeps ys"
  by (simp_all add: sleeps_def)

lemma storeCalls_retried:
  "storeCalls (concat (map (retriedAttempt m req) [a..<b])) = replicate (b - a) req"
proof (induction "b - a" arbitrary: a)
  case 0
  then show ?case by (simp add: storeCalls_simps)
next
  case (Suc n)
  then have "a < b" and "n = b - Suc a" by simp_all
  then show ?case using Suc.hyps(1) [of "Suc a"] Suc.hyps(2)
    by (simp add: upt_conv_Cons storeCalls_simps retriedAttempt_def flip: Suc.hyps(2))
qed

lemma sleeps_retried:
  "sleeps (concat (map (retriedAttempt m req) [a..<b])) = map (\<lambda>i. min (1000 * 2 ^ i) 5000) [a..<b]"
proof (induction "b - a" arbitrary: a)
  case 0
  then show ?case by (simp add: sleeps_simps)
next
  case (Suc n)
  then have "a < b" and "n = b - Suc a" by simp_all
  then show ?case using Suc.hyps(1) [of "Suc a"]
    by (simp add: upt_conv_Cons sleeps_simps retriedAttempt_def)
qed

lemma concat_map_upt_first:
  "a < b \<Longrightarrow> concat (map f [a..<b]) = f a @ concat (map f [Suc a..<b])"
  by (simp add: upt_conv_Cons)

lemma uploadLoop_success_step:
  assumes "int a < m" and "attemptUpload (store a req) = Inr d"
  shows "uploadLoop store req m a le =
           (Inr d, [Progress ((of_nat a + 1 / 2) / of_int m), Upload req, Progress 1])"
  using assms by (simp add: uploadLoop.simps [of store req m a])

lemma uploadLoop_retry_step:
  assumes "int a < m - 1" and "attemptUpload (store a req) = Inl msg"
    and "uploadLoop store req m (Suc a) (Some msg) = (r, evs)"
  shows "uploadLoop store req m a le = (r, retriedAttempt m req a @ evs)"
  using assms
  by (simp add: uploadLoop.simps [of store req m a] retriedAttempt_def backoffDelay_def)

lemma uploadLoop_last_step:
  assumes "int a < m" and "\<not> int a < m - 1" and "attemptUpload (store a req) = Inl msg"
  shows "uploadLoop store req m a le =
           (Inl (UploadFailed m (lastErrorMessage (Some msg))),
            [Progress ((of_nat a + 1 / 2) / of_int m), Upload req])"
proof -
  have "\<not> int (Suc a) < m" using assms(2) by simp
  then have "uploadLoop store req m (Suc a) (Some msg) =
               (Inl (UploadFailed m (lastErrorMessage (Some msg))), [])"
    by (simp add: uploadLoop.simps [of store req m "Suc a"])
  then show ?thesis
    using assms by (simp add: uploadLoop.simps [of store req m a])
qed

lemma uploadLoop_succeeds_at:
  assumes "a \<le> b" and "int b < m"
    and "\<forall>i<b. attemptUpload (store i req) = Inl (msgs i)"
    and "attemptUpload (store b req) = Inr d"
  shows "uploadLoop store req m a le =
           (Inr d, concat (map (retriedAttempt m req) [a..<b])
                   @ [Progress ((of_nat b + 1 / 2) / of_int m), Upload req, Progress 1])"
  using assms(1)
proof (induction "b - a" arbitrary: a le)
  case 0
  then have "a = b" by simp
  then show ?case
    using uploadLoop_success_step [of b m store req d le, OF assms(2) assms(4)] by simp
next
  case (Suc n)
  then have ab: "a < b" and n: "n = b - Suc a" and le: "Suc a \<le> b" by simp_all
  have lt: "int a < m - 1" using ab assms(2) by simp
  have fail: "attemptUpload (store a req) = Inl (msgs a)"
    using assms(3) ab by simp
  show ?case
    using uploadLoop_retry_step [of a m store req "msgs a" _ _ le, OF lt fail Suc.hyps(1) [OF n le]]
      concat_map_upt_first [OF ab, of "retriedAttempt m req"]
    by simp
qed

lemma uploadLoop_all_fail:
  assumes "int a < m"
    and "\<forall>i. int i < m \<longrightarrow> attemptUpload (store i req) = Inl (msgs i)"
  shows "uploadLoop store req m a le =
           (Inl (UploadFailed m (lastErrorMessage (Some (msgs (nat m - 1))))),
            concat (map (retriedAttempt m req) [a..<nat m - 1])
            @ [Progress ((of_nat (nat m - 1) + 1 / 2) / of_int m), Upload req])"
  using assms(1)
proof (induction "nat m - 1 - a" arbitrary: a le)
  case 0
  then have a: "nat m - 1 = a" by linarith
  have fail: "attemptUpload (store a req) = Inl (msgs a)"
    using assms(2) 0(2) by simp
  have nolt: "\<not> int a < m - 1" using a by linarith
  show ?case
    unfolding a using uploadLoop_last_step [of a m store req "msgs a" le, OF 0(2) nolt fail] by simp
next
  case (Suc n)
  then have lt: "int (Suc a) < m" "int a < m - 1" "a < nat m - 1" by linarith+
  have fail: "attemptUpload (store a req) = Inl (msgs a)"
    using assms(2) Suc.prems by simp
  have n: "n = nat m - 1 - Suc a" using Suc.hyps(2) by simp
  show ?case
    using uploadLoop_retry_step [of a m store req "msgs a" _ _ le, OF lt(2) fail Suc.hyps(1) [OF n lt(1)]]
      concat_map_upt_first [OF lt(3), of "retriedAttempt m req"]
    by simp
qed

text \<open>
  C1. Let the attempt budget be at least 1. If the store fails its first \<open>k\<close> calls,
  \<open>k\<close> below the budget, and then succeeds, \<open>uploadWithRetry\<close> returns the store's
  data after exactly \<open>k + 1\<close> store calls, having slept \<open>min (1000 * 2 ^ attempt) 5000\<close>
  milliseconds after each failed attempt \<open>0, \<dots>, k - 1\<close>. If the store fails every
  call, exactly as many store calls as the budget are made, the error thrown carries the
  budget and the last failure's message, and the sleeps are those after attempts
  \<open>0, \<dots>, budget - 2\<close>: none follows the final attempt.
\<close>

theorem uploadWithRetry_state_machine:
  fixes store :: "'a store"
  assumes "1 \<le> maxAttempts"
  shows
    "(int k < maxAttempts
        \<and> (\<forall>i<k. attemptUpload (store i \<lparr>bucket = b, path = p, body = dat, contentType = ct, upsert = False\<rparr>) = Inl (msgs i))
        \<and> attemptUpload (store k \<lparr>bucket = b, path = p, body = dat, contentType = ct, upsert = False\<rparr>) = Inr d
      \<longrightarrow> fst (uploadWithRetry store b p dat ct maxAttempts) = Inr d
          \<and> length (storeCalls (snd (uploadWithRetry store b p dat ct maxAttempts))) = k + 1
          \<and> sleeps (snd (uploadWithRetry store b p dat ct maxAttempts))
              = map (\<lambda>attempt. min (1000 * 2 ^ attempt) 5000) [0..<k]
          \<and> snd (uploadWithRetry store b p dat ct maxAttempts)
              = concat (map (retriedAttempt maxAttempts
                               \<lparr>bucket = b, path = p, body = dat, contentType = ct, upsert = False\<rparr>) [0..<k])
                @ [Progress ((of_nat k + 1 / 2) / of_int maxAttempts),
                   Upload \<lparr>bucket = b, path = p, body = dat, contentType = ct, upsert = False\<rparr>,
                   Progress 1])
   \<and> ((\<forall>i. int i < maxAttempts \<longrightarrow>
          attemptUpload (store i \<lparr>bucket = b, path = p, body = dat, contentType = ct, upsert = False\<rparr>) = Inl (msgs i))
      \<longrightarrow> fst (uploadWithRetry store b p dat ct maxAttempts)
              = Inl (UploadFailed maxAttempts (lastErrorMessage (Some (msgs (nat maxAttempts - 1)))))
          \<and> int (length (storeCalls (snd (uploadWithRetry store b p dat ct maxAttempts)))) = maxAttempts
          \<and> sleeps (snd (uploadWithRetry store b p dat ct maxAttempts))
              = map (\<lambda>attempt. min (1000 * 2 ^ attempt) 5000) [0..<nat maxAttempts - 1]
          \<and> snd (uploadWithRetry store b p dat ct maxAttempts)
              = concat (map (retriedAttempt maxAttempts
                               \<lparr>bucket = b, path = p, body = dat, contentType = ct, upsert = False\<rparr>)
                          [0..<nat maxAttempts - 1])
                @ [Progress ((of_nat (nat maxAttempts - 1) + 1 / 2) / of_int maxAttempts),
                   Upload \<lparr>bucket = b, path = p, body = dat, contentType = ct, upsert = False\<rparr>])"
proof (intro conjI impI)
  let ?req = "\<lparr>bucket = b, path = p, body = dat, contentType = ct, upsert = False\<rparr>"
  let ?run = "uploadWithRetry store b p dat ct maxAttempts"
  assume h: "int k < maxAttempts
        \<and> (\<forall>i<k. attemptUpload (store i ?req) = Inl (msgs i))
        \<and> attemptUpload (store k ?req) = Inr d"
  have run: "?run = (Inr d, concat (map (retriedAttempt maxAttempts ?req) [0..<k])
                @ [Progress ((of_nat k + 1 / 2) / of_int maxAttempts), Upload ?req, Progress 1])"
    unfolding uploadWithRetry_def
    using uploadLoop_succeeds_at [of 0 k maxAttempts store ?req msgs d None] h by simp
  show "fst ?run = Inr d" by (simp add: run)
  show "length (storeCalls (snd ?run)) = k + 1"
    by (simp add: run storeCalls_simps storeCalls_retried)
  show "sleeps (snd ?run) = map (\<lambda>attempt. min (1000 * 2 ^ attempt) 5000) [0..<k]"
    by (simp add: run sleeps_simps sleeps_retried)
  show "snd ?run = concat (map (retriedAttempt maxAttempts ?req) [0..<k])
                @ [Progress ((of_nat k + 1 / 2) / of_int maxAttempts), Upload ?req, Progress 1]"
    by (simp add: run)
next
  let ?req = "\<lparr>bucket = b, path = p, body = dat, contentType = ct, upsert = False\<rparr>"
  let ?run = "uploadWithRetry store b p dat ct maxAttempts"
  assume h: "\<forall>i. int i < maxAttempts \<longrightarrow> attemptUpload (store i ?req) = Inl (msgs i)"
  have run: "?run = (Inl (UploadFailed maxAttempts (lastErrorMessage (Some (msgs (nat maxAttempts - 1))))),
            concat (map (retriedAttempt maxAttempts ?req) [0..<nat maxAttempts - 1])
            @ [Progress ((of_nat (nat maxAttempts - 1) + 1 / 2) / of_int maxAttempts), Upload ?req])"
    unfolding uploadWithRetry_def
    using uploadLoop_all_fail [of 0 maxAttempts store ?req msgs None] h assms by simp
  show "fst ?run = Inl (UploadFailed maxAttempts (lastErrorMessage (Some (msgs (nat maxAttempts - 1)))))"
    by (simp add: run)
  show "int (length (storeCalls (snd ?run))) = maxAttempts"
    using assms by (simp add: run storeCalls_simps storeCalls_retried)
  show "sleeps (snd ?run) = map (\<lambda>attempt. min (1000 * 2 ^ attempt) 5000) [0..<nat maxAttempts - 1]"
    by (simp add: run sleeps_simps sleeps_retried)
  show "snd ?run = concat (map (retriedAttempt maxAttempts ?req) [0..<nat maxAttempts - 1])
            @ [Progress ((of_nat (nat maxAttempts - 1) + 1 / 2) / of_int maxAttempts), Upload ?req]"
    by (simp add: run)
qed

text \<open>
  The scenario of the specification: two transient errors, then success, with a budget
  of three; and a store that fails all three attempts.
\<close>

theorem uploadWithRetry_state_machine_witness:
  "fst (uploadWithRetry (failingFirst 2) ''storage-images'' ''u1/photo-42.jpg'' [255, 216]
          ''image/jpeg'' 3) = Inr (Some ''u1/photo-42.jpg'')
   \<and> length (storeCalls (snd (uploadWithRetry (failingFirst 2) ''storage-images''
          ''u1/photo-42.jpg'' [255, 216] ''image/jpeg'' 3))) = 3
   \<and> sleeps (snd (uploadWithRetry (failingFirst 2) ''storage-images'' ''u1/photo-42.jpg''
          [255, 216] ''image/jpeg'' 3)) = [1000, 2000]
   \<and> fst (uploadWithRetry (failingFirst 3) ''storage-images'' ''u1/photo-42.jpg'' [255, 216]
          ''image/jpeg'' 3) = Inl (UploadFailed 3 ''network'')
   \<and> length (storeCalls (snd (uploadWithRetry (failingFirst 3) ''storage-images''
          ''u1/photo-42.jpg'' [255, 216] ''image/jpeg'' 3))) = 3
   \<and> sleeps (snd (uploadWithRetry (failingFirst 3) ''storage-images'' ''u1/photo-42.jpg''
          [255, 216] ''image/jpeg'' 3)) = [1000, 2000]"
proof -
  have upt: "[0..<2] = [0, Suc 0]" by (simp add: upt_rec)
  have budget: "(1::int) \<le> 3" by simp
  have a: "int 2 < 3
        \<and> (\<forall>i<2. attemptUpload (failingFirst 2 i \<lparr>bucket = ''storage-images'',
               path = ''u1/photo-42.jpg'', body = [255, 216], contentType = ''image/jpeg'',
               upsert = False\<rparr>) = Inl ((\<lambda>_. ''network'') i))
        \<and> attemptUpload (failingFirst 2 2 \<lparr>bucket = ''storage-images'',
               path = ''u1/photo-42.jpg'', body = [255, 216], contentType = ''image/jpeg'',
               upsert = False\<rparr>) = Inr (Some ''u1/photo-42.jpg'')"
    by (simp add: attemptUpload_def failingFirst_def)
  have b: "\<forall>i. int i < 3 \<longrightarrow> attemptUpload (failingFirst 3 i \<lparr>bucket = ''storage-images'',
               path = ''u1/photo-42.jpg'', body = [255, 216], contentType = ''image/jpeg'',
               upsert = False\<rparr>) = Inl ((\<lambda>_. ''network'') i)"
    by (simp add: attemptUpload_def failingFirst_def)
  note ok = uploadWithRetry_state_machine [OF budget, of 2 "failingFirst 2" "''storage-images''"
      "''u1/photo-42.jpg''" "[255, 216]" "''image/jpeg''" "\<lambda>_. ''network''"
      "Some ''u1/photo-42.jpg''", THEN conjunct1, THEN mp, OF a]
  note ko = uploadWithRetry_state_machine [OF budget, of 0 "failingFirst 3" "''storage-images''"
      "''u1/photo-42.jpg''" "[255, 216]" "''image/jpeg''" "\<lambda>_. ''network''"
      "Some ''u1/photo-42.jpg''", THEN conjunct2, THEN mp, OF b]
  have r1: "fst (uploadWithRetry (failingFirst 2) ''storage-images'' ''u1/photo-42.jpg''
          [255, 216] ''image/jpeg'' 3) = Inr (Some ''u1/photo-42.jpg'')"
    using ok [THEN conjunct1] .
  have r2: "length (storeCalls (snd (uploadWithRetry (failingFirst 2) ''storage-images''
          ''u1/photo-42.jpg'' [255, 216] ''image/jpeg'' 3))) = 3"
    using ok [THEN conjunct2, THEN conjunct1] by simp
  have r3: "sleeps (snd (uploadWithRetry (failingFirst 2) ''storage-images'' ''u1/photo-42.jpg''
          [255, 216] ''image/jpeg'' 3)) = [1000, 2000]"
    using ok [THEN conjunct2, THEN conjunct2, THEN conjunct1] by (simp add: upt)
  have r4: "fst (uploadWithRetry (failingFirst 3) ''storage-images'' ''u1/photo-42.jpg''
          [255, 216] ''image/jpeg'' 3) = Inl (UploadFailed 3 ''network'')"
    using ko [THEN conjunct1] by (simp add: lastErrorMessage_def)
  have r5: "length (storeCalls (snd (uploadWithRetry (failingFirst 3) ''storage-images''
          ''u1/photo-42.jpg'' [255, 216] ''image/jpeg'' 3))) = 3"
    using ko [THEN conjunct2, THEN conjunct1] by simp
  have r6: "sleeps (snd (uploadWithRetry (failingFirst 3) ''storage-images'' ''u1/photo-42.jpg''
          [255, 216] ''image/jpeg'' 3)) = [1000, 2000]"
    using ko [THEN conjunct2, THEN conjunct2, THEN conjunct1] by (simp add: upt)
  from r1 r2 r3 r4 r5 r6 show ?thesis by blast
qed

section \<open>Properties of the binary encoder\<close>

lemma length_TABLE: "length TABLE = 64"
  by (simp add: TABLE_def)

lemma distinct_TABLE: "distinct TABLE"
  by (simp add: TABLE_def)

lemma pad_notin_TABLE: "CHR ''='' \<notin> set TABLE"
  by (simp add: TABLE_def)

lemma indexOf_nth:
  "distinct xs \<Longrightarrow> i < length xs \<Longrightarrow> indexOf xs (xs ! i) = i"
proof (induction xs arbitrary: i)
  case Nil
  then show ?case by simp
next
  case (Cons x xs)
  show ?case
  proof (cases i)
    case 0
    then show ?thesis by simp
  next
    case (Suc j)
    with Cons.prems have "j < length xs" and "xs ! j \<in> set xs" and "x \<notin> set xs"
      by simp_all
    then have "x \<noteq> xs ! j" by blast
    with Suc Cons show ?thesis by simp
  qed
qed

lemma indexOf_TABLE: "s < 64 \<Longrightarrow> indexOf TABLE (TABLE ! s) = s"
  by (simp add: indexOf_nth distinct_TABLE length_TABLE)

lemma TABLE_nth_mem: "s < 64 \<Longrightarrow> TABLE ! s \<in> set TABLE"
  by (simp add: length_TABLE)

lemma TABLE_nth_not_pad: "s < 64 \<Longrightarrow> TABLE ! s \<noteq> CHR ''=''"
  using TABLE_nth_mem pad_notin_TABLE by metis

lemma fillBytes_from:
  "i \<le> length s \<Longrightarrow> length bytes = length s \<Longrightarrow>
     fillBytes s i bytes = take i bytes @ map of_nat (drop i s)"
proof (induction s i bytes rule: fillBytes.induct)
  case (1 s i bytes)
  show ?case
  proof (cases "i < length s")
    case True
    have "fillBytes s i bytes = fillBytes s (Suc i) (bytes[i := of_nat (s ! i)])"
      using True by (simp add: fillBytes.simps [of s i])
    also have "\<dots> = take (Suc i) (bytes[i := of_nat (s ! i)]) @ map of_nat (drop (Suc i) s)"
      using "1.IH" [OF True] True "1.prems" by simp
    also have "\<dots> = take i bytes @ map of_nat (drop i s)"
      using True "1.prems"
      by (simp add: take_Suc_conv_app_nth Cons_nth_drop_Suc [symmetric])
    finally show ?thesis .
  next
    case False
    with "1.prems" have "i = length s" by simp
    then show ?thesis
      using "1.prems" by (simp add: fillBytes.simps [of s "length s"])
  qed
qed

lemma bytesOfBinaryString_map: "bytesOfBinaryString s = map of_nat s"
  using fillBytes_from [of 0 s "replicate (length s) 0"]
  by (simp add: bytesOfBinaryString_def)

lemma bytesOfBinaryString_unat: "bytesOfBinaryString (map unat bs) = bs"
  by (simp add: bytesOfBinaryString_map comp_def)

lemma group16: "(a div 4) * 64 + ((a mod 4) * 16 + x) = 16 * a + (x::nat)"
proof -
  have "a div 4 * 4 + a mod 4 = a" by (rule div_mult_mod_eq)
  then show ?thesis by linarith
qed

lemma group4: "(16 * a + b div 16) * 64 + ((b mod 16) * 4 + x) = 1024 * a + 4 * b + (x::nat)"
proof -
  have "b div 16 * 16 + b mod 16 = b" by (rule div_mult_mod_eq)
  moreover have "(16 * a + b div 16) * 64 = 1024 * a + 64 * (b div 16)" by simp
  ultimately show ?thesis by linarith
qed

lemma group1: "(1024 * a + 4 * b + c div 64) * 64 + c mod 64 = 65536 * a + 256 * b + (c::nat)"
proof -
  have "c div 64 * 64 + c mod 64 = c" by (rule div_mult_mod_eq)
  moreover have "(1024 * a + 4 * b + c div 64) * 64 = 65536 * a + 256 * b + 64 * (c div 64)"
    by simp
  ultimately show ?thesis by linarith
qed

lemma sextet1: "a < 256 \<Longrightarrow> b < 256 \<Longrightarrow>
  ((a div 4) * 64 + ((a mod 4) * 16 + b div 16)) div 16 mod 256 = (a::nat)"
proof -
  assume a: "a < 256" and b: "b < 256"
  have "b div 16 < 16" using b by simp
  then have "(16 * a + b div 16) div 16 = a" by simp
  then show ?thesis using a by (simp only: group16 mod_less)
qed

lemma sextet2: "a < 256 \<Longrightarrow> b < 256 \<Longrightarrow> c < 256 \<Longrightarrow>
  (((a div 4) * 64 + ((a mod 4) * 16 + b div 16)) * 64 + ((b mod 16) * 4 + c div 64)) div 4 mod 256 = (b::nat)"
proof -
  assume a: "a < 256" and b: "b < 256" and c: "c < 256"
  have "c div 64 < 4" using c by simp
  then have "(4 * (256 * a + b) + c div 64) div 4 = 256 * a + b" by simp
  moreover have "1024 * a + 4 * b + c div 64 = 4 * (256 * a + b) + c div 64" by simp
  ultimately have "(1024 * a + 4 * b + c div 64) div 4 = 256 * a + b" by (simp only:)
  moreover have "(256 * a + b) mod 256 = b" using b by simp
  ultimately show ?thesis by (simp only: group16 group4)
qed

lemma sextet3: "a < 256 \<Longrightarrow> b < 256 \<Longrightarrow> c < 256 \<Longrightarrow>
  ((((a div 4) * 64 + ((a mod 4) * 16 + b div 16)) * 64 + ((b mod 16) * 4 + c div 64)) * 64 + c mod 64) mod 256 = (c::nat)"
proof -
  assume a: "a < 256" and b: "b < 256" and c: "c < 256"
  have "\<And>k. (256 * k + c) mod 256 = c" using c by simp
  then have "(256 * (256 * a + b) + c) mod 256 = c" .
  moreover have "65536 * a + 256 * b + c = 256 * (256 * a + b) + c" by simp
  ultimately have "(65536 * a + 256 * b + c) mod 256 = c" by (simp only:)
  then show ?thesis by (simp only: group16 group4 group1)
qed

lemma pad1: "a < 256 \<Longrightarrow> ((a div 4) * 64 + (a mod 4) * 16) div 16 mod 256 = (a::nat)"
  using sextet1 [of a 0] by simp

lemma pad2a: "a < 256 \<Longrightarrow> b < 256 \<Longrightarrow>
  (((a div 4) * 64 + ((a mod 4) * 16 + b div 16)) * 64 + (b mod 16) * 4) div 4 mod 256 = (b::nat)"
  using sextet2 [of a b 0] by simp


lemma sextet_bounds:
  fixes a b c :: nat
  assumes "a < 256" "b < 256" "c < 256"
  shows "a div 4 < 64" "(a mod 4) * 16 + b div 16 < 64" "(a mod 4) * 16 < 64"
    "(b mod 16) * 4 + c div 64 < 64" "(b mod 16) * 4 < 64" "c mod 64 < 64"
proof -
  have "a mod 4 < 4" "b div 16 < 16" "b mod 16 < 16" "c div 64 < 4"
    using assms by simp_all
  then show "(a mod 4) * 16 + b div 16 < 64" "(a mod 4) * 16 < 64"
    "(b mod 16) * 4 + c div 64 < 64" "(b mod 16) * 4 < 64"
    by linarith+
  show "a div 4 < 64" using assms by simp
  show "c mod 64 < 64" by simp
qed

lemma unat_octet: "unat (a :: 8 word) < 256"
  using unsigned_less [of a] by simp

lemma stripPadding_append:
  assumes "2 \<le> length e"
  shows "stripPadding (g @ e) = g @ stripPadding e"
proof -
  have "2 \<le> length (rev e)" using assms by simp
  then obtain c1 c2 r where r: "rev e = c1 # c2 # r"
    by (cases "rev e"; cases "tl (rev e)") auto
  have "rev (g @ e) = c1 # c2 # (r @ rev g)" by (simp add: r)
  then show ?thesis by (simp add: stripPadding_def r)
qed

lemma stripPadding_quad:
  "z \<noteq> CHR ''='' \<Longrightarrow> stripPadding [w, x, y, z] = [w, x, y, z]"
  by (simp add: stripPadding_def)

lemma length_base64Encode: "length (base64Encode bs) mod 4 = 0"
  by (induction bs rule: base64Encode.induct) simp_all

lemma base64Encode_long: "bs \<noteq> [] \<Longrightarrow> 2 \<le> length (base64Encode bs)"
  by (cases bs rule: base64Encode.cases) simp_all

lemma stripPadding_base64Encode: "stripPadding (base64Encode bs) = encodeUnpadded bs"
proof (induction bs rule: base64Encode.induct)
  case 1
  show ?case by (simp add: stripPadding_def)
next
  case (2 a)
  show ?case by (simp add: stripPadding_def)
next
  case (3 a b)
  have "TABLE ! ((unat b mod 16) * 4) \<noteq> CHR ''=''"
    using sextet_bounds(5) [OF unat_octet unat_octet unat_octet] by (rule TABLE_nth_not_pad)
  then show ?case by (simp add: stripPadding_def)
next
  case (4 a b c rest)
  let ?g = "[TABLE ! (unat a div 4), TABLE ! ((unat a mod 4) * 16 + unat b div 16),
      TABLE ! ((unat b mod 16) * 4 + unat c div 64), TABLE ! (unat c mod 64)]"
  show ?case
  proof (cases "rest = []")
    case True
    have "TABLE ! (unat c mod 64) \<noteq> CHR ''=''"
      by (rule TABLE_nth_not_pad) simp
    then show ?thesis using True by (simp add: stripPadding_quad)
  next
    case False
    have "stripPadding (?g @ base64Encode rest) = ?g @ stripPadding (base64Encode rest)"
      by (rule stripPadding_append [OF base64Encode_long [OF False]])
    then show ?thesis using 4 by simp
  qed
qed

lemma decodeLoop_first:
  assumes "n mod 4 = 0" and "s < 64"
  shows "decodeLoop (TABLE ! s # cs) n st out = decodeLoop cs (n + 1) s out"
  using assms by (simp add: Let_def indexOf_TABLE)

lemma decodeLoop_next:
  assumes "n mod 4 = k" and "0 < k" and "s < 64"
  shows "decodeLoop (TABLE ! s # cs) n st out =
           decodeLoop cs (n + 1) (st * 64 + s)
             (out @ [((st * 64 + s) div 2 ^ (6 - 2 * k)) mod 256])"
  using assms by (auto simp add: Let_def indexOf_TABLE)

lemma mod4_steps:
  assumes "n mod 4 = (0::nat)"
  shows "(n + 1) mod 4 = 1" "(n + 1 + 1) mod 4 = 2" "(n + 1 + 1 + 1) mod 4 = 3"
    "(n + 1 + 1 + 1 + 1) mod 4 = 0"
proof -
  have step: "(n + r) mod 4 = r mod 4" for r
    using assms mod_add_left_eq [of n 4 r] by simp
  have "n + 1 + 1 = n + 2" "n + 1 + 1 + 1 = n + 3" "n + 1 + 1 + 1 + 1 = n + 4"
    by simp_all
  then show "(n + 1) mod 4 = 1" "(n + 1 + 1) mod 4 = 2" "(n + 1 + 1 + 1) mod 4 = 3"
    "(n + 1 + 1 + 1 + 1) mod 4 = 0"
    using step [of 1] step [of 2] step [of 3] step [of 4] by (simp_all only: mod_less mod_self)
qed

lemma decodeLoop_pair:
  assumes "n mod 4 = 0" and "s0 < 64" and "s1 < 64"
  shows "decodeLoop (TABLE ! s0 # TABLE ! s1 # cs) n st out =
           decodeLoop cs (n + 1 + 1) (s0 * 64 + s1) (out @ [(s0 * 64 + s1) div 16 mod 256])"
proof -
  have "decodeLoop (TABLE ! s0 # TABLE ! s1 # cs) n st out =
          decodeLoop (TABLE ! s1 # cs) (n + 1) s0 out"
    by (rule decodeLoop_first [OF assms(1,2)])
  also have "\<dots> = decodeLoop cs (n + 1 + 1) (s0 * 64 + s1)
                     (out @ [((s0 * 64 + s1) div 2 ^ (6 - 2 * 1)) mod 256])"
    by (rule decodeLoop_next [OF mod4_steps(1) [OF assms(1)] _ assms(3)]) simp
  finally show ?thesis by simp
qed

lemma decodeLoop_triple:
  assumes "n mod 4 = 0" and "s0 < 64" and "s1 < 64" and "s2 < 64"
  shows "decodeLoop (TABLE ! s0 # TABLE ! s1 # TABLE ! s2 # cs) n st out =
           decodeLoop cs (n + 1 + 1 + 1) ((s0 * 64 + s1) * 64 + s2)
             (out @ [(s0 * 64 + s1) div 16 mod 256, ((s0 * 64 + s1) * 64 + s2) div 4 mod 256])"
proof -
  have "decodeLoop (TABLE ! s0 # TABLE ! s1 # TABLE ! s2 # cs) n st out =
          decodeLoop (TABLE ! s2 # cs) (n + 1 + 1) (s0 * 64 + s1)
            (out @ [(s0 * 64 + s1) div 16 mod 256])"
    by (rule decodeLoop_pair [OF assms(1,2,3)])
  also have "\<dots> = decodeLoop cs (n + 1 + 1 + 1) ((s0 * 64 + s1) * 64 + s2)
                     ((out @ [(s0 * 64 + s1) div 16 mod 256])
                      @ [(((s0 * 64 + s1) * 64 + s2) div 2 ^ (6 - 2 * 2)) mod 256])"
    by (rule decodeLoop_next [OF mod4_steps(2) [OF assms(1)] _ assms(4)]) simp
  finally show ?thesis by simp
qed

lemma decodeLoop_quad:
  assumes "n mod 4 = 0" and "s0 < 64" and "s1 < 64" and "s2 < 64" and "s3 < 64"
  shows "decodeLoop (TABLE ! s0 # TABLE ! s1 # TABLE ! s2 # TABLE ! s3 # cs) n st out =
           decodeLoop cs (n + 1 + 1 + 1 + 1) (((s0 * 64 + s1) * 64 + s2) * 64 + s3)
             (out @ [(s0 * 64 + s1) div 16 mod 256, ((s0 * 64 + s1) * 64 + s2) div 4 mod 256,
                     (((s0 * 64 + s1) * 64 + s2) * 64 + s3) mod 256])"
proof -
  have "decodeLoop (TABLE ! s0 # TABLE ! s1 # TABLE ! s2 # TABLE ! s3 # cs) n st out =
          decodeLoop (TABLE ! s3 # cs) (n + 1 + 1 + 1) ((s0 * 64 + s1) * 64 + s2)
            (out @ [(s0 * 64 + s1) div 16 mod 256, ((s0 * 64 + s1) * 64 + s2) div 4 mod 256])"
    by (rule decodeLoop_triple [OF assms(1,2,3,4)])
  also have "\<dots> = decodeLoop cs (n + 1 + 1 + 1 + 1) (((s0 * 64 + s1) * 64 + s2) * 64 + s3)
                     ((out @ [(s0 * 64 + s1) div 16 mod 256, ((s0 * 64 + s1) * 64 + s2) div 4 mod 256])
                      @ [((((s0 * 64 + s1) * 64 + s2) * 64 + s3) div 2 ^ (6 - 2 * 3)) mod 256])"
    by (rule decodeLoop_next [OF mod4_steps(3) [OF assms(1)] _ assms(5)]) simp
  finally show ?thesis by simp
qed

lemma decodeLoop_encodeUnpadded:
  "n mod 4 = 0 \<Longrightarrow> decodeLoop (encodeUnpadded bs) n st out = out @ map unat bs"
proof (induction bs arbitrary: n st out rule: encodeUnpadded.induct)
  case 1
  show ?case by simp
next
  case (2 a)
  note bd = sextet_bounds [OF unat_octet [of a] unat_octet [of a] unat_octet [of a]]
  have "decodeLoop (encodeUnpadded [a]) n st out =
          decodeLoop [] (n + 1 + 1) ((unat a div 4) * 64 + (unat a mod 4) * 16)
            (out @ [((unat a div 4) * 64 + (unat a mod 4) * 16) div 16 mod 256])"
    unfolding encodeUnpadded.simps by (rule decodeLoop_pair [OF "2.prems" bd(1) bd(3)])
  also have "\<dots> = out @ [unat a]"
    by (simp only: decodeLoop.simps pad1 [OF unat_octet [of a]])
  finally show ?case by simp
next
  case (3 a b)
  note bd = sextet_bounds [OF unat_octet [of a] unat_octet [of b] unat_octet [of b]]
  have "decodeLoop (encodeUnpadded [a, b]) n st out =
          decodeLoop [] (n + 1 + 1 + 1)
            (((unat a div 4) * 64 + ((unat a mod 4) * 16 + unat b div 16)) * 64 + (unat b mod 16) * 4)
            (out @ [((unat a div 4) * 64 + ((unat a mod 4) * 16 + unat b div 16)) div 16 mod 256,
                    (((unat a div 4) * 64 + ((unat a mod 4) * 16 + unat b div 16)) * 64
                      + (unat b mod 16) * 4) div 4 mod 256])"
    unfolding encodeUnpadded.simps by (rule decodeLoop_triple [OF "3.prems" bd(1) bd(2) bd(5)])
  also have "\<dots> = out @ [unat a, unat b]"
    by (simp only: decodeLoop.simps sextet1 [OF unat_octet [of a] unat_octet [of b]]
        pad2a [OF unat_octet [of a] unat_octet [of b]])
  finally show ?case by simp
next
  case (4 a b c rest)
  note bd = sextet_bounds [OF unat_octet [of a] unat_octet [of b] unat_octet [of c]]
  have n4: "(n + 1 + 1 + 1 + 1) mod 4 = 0" using "4.prems" by (rule mod4_steps(4))
  have "decodeLoop (encodeUnpadded (a # b # c # rest)) n st out =
          decodeLoop (encodeUnpadded rest) (n + 1 + 1 + 1 + 1)
            ((((unat a div 4) * 64 + ((unat a mod 4) * 16 + unat b div 16)) * 64
               + ((unat b mod 16) * 4 + unat c div 64)) * 64 + unat c mod 64)
            (out @ [((unat a div 4) * 64 + ((unat a mod 4) * 16 + unat b div 16)) div 16 mod 256,
                    (((unat a div 4) * 64 + ((unat a mod 4) * 16 + unat b div 16)) * 64
                      + ((unat b mod 16) * 4 + unat c div 64)) div 4 mod 256,
                    ((((unat a div 4) * 64 + ((unat a mod 4) * 16 + unat b div 16)) * 64
                      + ((unat b mod 16) * 4 + unat c div 64)) * 64 + unat c mod 64) mod 256])"
    unfolding encodeUnpadded.simps append.simps
    by (rule decodeLoop_quad [OF "4.prems" bd(1) bd(2) bd(4) bd(6)])
  also have "\<dots> = decodeLoop (encodeUnpadded rest) (n + 1 + 1 + 1 + 1)
            ((((unat a div 4) * 64 + ((unat a mod 4) * 16 + unat b div 16)) * 64
               + ((unat b mod 16) * 4 + unat c div 64)) * 64 + unat c mod 64)
            (out @ [unat a, unat b, unat c])"
    by (simp only: sextet1 [OF unat_octet [of a] unat_octet [of b]]
        sextet2 [OF unat_octet [of a] unat_octet [of b] unat_octet [of c]]
        sextet3 [OF unat_octet [of a] unat_octet [of b] unat_octet [of c]])
  also have "\<dots> = (out @ [unat a, unat b, unat c]) @ map unat rest"
    by (rule "4.IH" [OF n4])
  finally show ?case by simp
qed

lemma encodeUnpadded_alphabet: "list_all (\<lambda>c. c \<in> set TABLE) (encodeUnpadded bs)"
proof (induction bs rule: encodeUnpadded.induct)
  case 1
  show ?case by simp
next
  case (2 a)
  note bd = sextet_bounds [OF unat_octet [of a] unat_octet [of a] unat_octet [of a]]
  show ?case by (simp add: TABLE_nth_mem bd del: set_conv_nth)
next
  case (3 a b)
  note bd = sextet_bounds [OF unat_octet [of a] unat_octet [of b] unat_octet [of b]]
  show ?case by (simp add: TABLE_nth_mem bd)
next
  case (4 a b c rest)
  note bd = sextet_bounds [OF unat_octet [of a] unat_octet [of b] unat_octet [of c]]
  show ?case using 4 by (simp add: TABLE_nth_mem bd)
qed

lemma length_encodeUnpadded: "length (encodeUnpadded bs) mod 4 \<noteq> 1"
proof (induction bs rule: encodeUnpadded.induct)
  case (4 a b c rest)
  have "length (encodeUnpadded (a # b # c # rest)) = length (encodeUnpadded rest) + 4"
    by simp
  then have "length (encodeUnpadded (a # b # c # rest)) mod 4 = length (encodeUnpadded rest) mod 4"
    by (simp only: mod_add_self2)
  then show ?case using 4 by metis
qed simp_all

lemma base64Decode_base64Encode: "base64Decode (base64Encode bs) = Inr (map unat bs)"
proof -
  have "decodeLoop (encodeUnpadded bs) 0 0 [] = [] @ map unat bs"
    by (rule decodeLoop_encodeUnpadded) simp
  then show ?thesis
    using encodeUnpadded_alphabet [of bs] length_encodeUnpadded [of bs]
    by (simp add: base64Decode_def Let_def length_base64Encode stripPadding_base64Encode)
qed

text \<open>
  C8. Round trip: for every octet list, of any length, decoding its base64 text and
  filling the octet array from the decoded binary string gives the octet list back.
\<close>

theorem base64_roundtrip: "decodeToBytes base64Decode (base64Encode bs) = Inr bs"
  by (simp add: decodeToBytes_def base64Decode_base64Encode bytesOfBinaryString_unat)

text \<open>The empty buffer, a buffer of one octet and one of three.\<close>

theorem base64_roundtrip_witness:
  "base64Encode [] = [] \<and> decodeToBytes base64Decode [] = Inr []
   \<and> base64Encode [77] = ''TQ=='' \<and> decodeToBytes base64Decode ''TQ=='' = Inr [77]
   \<and> base64Encode [77, 97, 110] = ''TWFu''
   \<and> decodeToBytes base64Decode ''TWFu'' = Inr [77, 97, 110]"
proof -
  have e: "base64Encode [] = []" "base64Encode [77] = ''TQ==''"
    "base64Encode [77, 97, 110] = ''TWFu''"
    by (simp_all add: TABLE_def)
  from base64_roundtrip [of "[]"] base64_roundtrip [of "[77]"]
    base64_roundtrip [of "[77, 97, 110]"]
  show ?thesis by (simp only: e simp_thms)
qed

section \<open>Properties of the pipeline\<close>

lemma preValidation_passes: "valid (validateImageFile u None None)"
  by (simp add: validateImageFile_uri_only)

lemma mime_allowed:
  "toLowerCase (getMimeType (extractExtensionFromUri p)) \<in> set allowedMimeTypes
   \<and> getMimeType (extractExtensionFromUri p) \<noteq> []"
proof -
  have "extractExtensionFromUri p \<in> {''jpg'', ''jpeg'', ''png'', ''webp'', ''gif''}"
    using extractExtensionFromUri_valid [of p] by (simp add: validExtensions_def)
  then show ?thesis
    by (auto simp: getMimeType_def toLowerCase_def toLowerCaseChar_def allowedMimeTypes_def)
qed

lemma sizeValidation_too_big:
  assumes "s > maxSizeBytes"
  shows "validateImageFile p (Some s) (Some (getMimeType (extractExtensionFromUri p)))
           = \<lparr>valid = False, verror = Some (FileTooBig (s / (1024 * 1024)))\<rparr>"
proof -
  have "s \<noteq> 0" using assms by (auto simp: maxSizeBytes_def)
  then show ?thesis
    using assms extractExtensionFromUri_valid [of p] mime_allowed [of p]
    by (simp add: validateImageFile_def Let_def validExtensions_def allowedFormats_def)
qed

lemma readAndCheck_too_big:
  assumes "env_readAsString env p = Inr base64"
    and "of_nat (length base64) * 3 / 4 > maxSizeBytes"
  shows "readAndCheck env options p =
           (Inl (ValidationFailed (Some (FileTooBig (of_nat (length base64) * 3 / 4 / (1024 * 1024))))),
            [Progress 40, ReadFile p])"
  using assms sizeValidation_too_big [OF assms(2), of p]
  by (simp add: readAndCheck_def Let_def)

lemma oversized_run:
  assumes "env_readAsString env (fst (fst (compressionStage env u options))) = Inr base64"
    and "of_nat (length base64) * 3 / 4 > maxSizeBytes"
  shows "uploadImageToSupabase env u options =
           (Inl (ValidationFailed (Some (FileTooBig (of_nat (length base64) * 3 / 4 / (1024 * 1024))))),
            [Progress 10] @ snd (compressionStage env u options)
            @ [Progress 40, ReadFile (fst (fst (compressionStage env u options)))])"
  using readAndCheck_too_big [OF assms, of options]
  by (simp add: uploadImageToSupabase_def Let_def preValidation_passes uploadStages_def)

lemma storeCalls_Cons:
  "storeCalls (e # evs) = (case e of Upload r \<Rightarrow> [r] | _ \<Rightarrow> []) @ storeCalls evs"
  by (simp add: storeCalls_def)

lemma concat_map_Nil: "concat (map (\<lambda>x. []) xs) = []"
  by (induction xs) simp_all

lemma storeCalls_Manipulate: "storeCalls (map Manipulate calls) = []"
  by (simp add: storeCalls_def comp_def concat_map_Nil)

lemma compressionStage_events:
  "storeCalls (snd (compressionStage env u options)) = []"
  "Decode \<notin> set (snd (compressionStage env u options))"
  "LedgerRead owner \<notin> set (snd (compressionStage env u options))"
  by (auto simp: compressionStage_def storeCalls_Manipulate storeCalls_simps split: sum.splits)

text \<open>
  C3, as the code has it. The pre-validation sees the reference only, so the size is
  not checked before compression. Whenever the file the pipeline reads (the compressed
  one when compression succeeded, the original otherwise) has an estimated size above
  the 10MB ceiling, the pipeline throws the validator's ``File too large'' after the
  compression step and the file read; no ledger read, no decode into a byte buffer and
  no store call happens.
\<close>

theorem oversized_rejected_after_read:
  assumes "env_readAsString env (fst (fst (compressionStage env u options))) = Inr base64"
    and "of_nat (length base64) * 3 / 4 > maxSizeBytes"
  shows "uploadImageToSupabase env u options =
           (Inl (ValidationFailed (Some (FileTooBig (of_nat (length base64) * 3 / 4 / (1024 * 1024))))),
            [Progress 10] @ snd (compressionStage env u options)
            @ [Progress 40, ReadFile (fst (fst (compressionStage env u options)))])
         \<and> storeCalls (snd (uploadImageToSupabase env u options)) = []
         \<and> Decode \<notin> set (snd (uploadImageToSupabase env u options))
         \<and> (\<forall>owner. LedgerRead owner \<notin> set (snd (uploadImageToSupabase env u options)))"
  by (simp add: oversized_run [OF assms] compressionStage_events storeCalls_simps storeCalls_Cons)

text \<open>
  A file of 10485762 estimated bytes with compression disabled: rejected right after the
  read, with no store call and no decode.
\<close>

theorem oversized_rejected_after_read_witness:
  "env_readAsString (sampleEnv corruptCodec (replicate 13981016 CHR ''A'') 0)
       (fst (fst (compressionStage (sampleEnv corruptCodec (replicate 13981016 CHR ''A'') 0)
          ''file:///photo.jpg'' (sampleOptions\<lparr>opt_compress := Some False\<rparr>))))
     = Inr (replicate 13981016 CHR ''A'')
   \<and> of_nat (length (replicate 13981016 CHR ''A'')) * 3 / 4 > maxSizeBytes
   \<and> uploadImageToSupabase (sampleEnv corruptCodec (replicate 13981016 CHR ''A'') 0)
        ''file:///photo.jpg'' (sampleOptions\<lparr>opt_compress := Some False\<rparr>)
       = (Inl (ValidationFailed (Some (FileTooBig (5242881 / 524288)))),
          [Progress 10, Progress 40, ReadFile ''file:///photo.jpg''])
   \<and> storeCalls (snd (uploadImageToSupabase
        (sampleEnv corruptCodec (replicate 13981016 CHR ''A'') 0)
        ''file:///photo.jpg'' (sampleOptions\<lparr>opt_compress := Some False\<rparr>))) = []"
proof -
  have stage: "compressionStage (sampleEnv corruptCodec (replicate 13981016 CHR ''A'') 0)
          ''file:///photo.jpg'' (sampleOptions\<lparr>opt_compress := Some False\<rparr>)
        = ((''file:///photo.jpg'', False), [])"
    by (simp add: compressionStage_def optCompress_def)
  have r: "env_readAsString (sampleEnv corruptCodec (replicate 13981016 CHR ''A'') 0)
       (fst (fst (compressionStage (sampleEnv corruptCodec (replicate 13981016 CHR ''A'') 0)
          ''file:///photo.jpg'' (sampleOptions\<lparr>opt_compress := Some False\<rparr>))))
     = Inr (replicate 13981016 CHR ''A'')"
    by (simp add: sampleEnv_def)
  have s: "of_nat (length (replicate 13981016 CHR ''A'')) * 3 / 4 > maxSizeBytes"
    by (simp add: maxSizeBytes_def)
  note rejected = oversized_rejected_after_read [OF r s]
  have run: "uploadImageToSupabase (sampleEnv corruptCodec (replicate 13981016 CHR ''A'') 0)
        ''file:///photo.jpg'' (sampleOptions\<lparr>opt_compress := Some False\<rparr>)
       = (Inl (ValidationFailed (Some (FileTooBig (5242881 / 524288)))),
          [Progress 10, Progress 40, ReadFile ''file:///photo.jpg''])"
    using rejected [THEN conjunct1] by (simp add: stage)
  from r s run rejected [THEN conjunct2, THEN conjunct1] show ?thesis by blast
qed

lemma sample_first_call:
  "compressImage (sampleCodec 800 600) ''file:///photo.jpg'' pipelineProfile =
        (Inr \<lparr>uri = ''file:///cache/first.jpg'', width = 800, height = 600, processedSize = 0\<rparr>,
         [\<lparr>source = ''file:///photo.jpg'', actions = [], compress = 8 / 10\<rparr>])"
  by (simp add: compressImage_def Let_def sampleCodec_def resizeActions_def pipelineProfile_def
      optMaxWidth_def optMaxHeight_def optQuality_def)

lemma sample_compressionStage:
  "compressionStage (sampleEnv (sampleCodec 800 600) b k) ''file:///photo.jpg'' sampleOptions =
     ((''file:///cache/first.jpg'', True),
      [Manipulate \<lparr>source = ''file:///photo.jpg'', actions = [], compress = 8 / 10\<rparr>, Progress 30])"
  by (simp add: compressionStage_def sampleEnv_def sampleOptions_def optCompress_def sample_first_call)

text \<open>
  C3 as stated fails: for a file of more than 10MB the codec is called (the
  \<open>Manipulate\<close> event) and the file is read before the pipeline rejects it.
\<close>

theorem oversized_compressed_first_counterexample:
  "uploadImageToSupabase (sampleEnv (sampleCodec 800 600) (replicate 13981016 CHR ''A'') 0)
       ''file:///photo.jpg'' sampleOptions =
     (Inl (ValidationFailed (Some (FileTooBig (5242881 / 524288)))),
      [Progress 10,
       Manipulate \<lparr>source = ''file:///photo.jpg'', actions = [], compress = 8 / 10\<rparr>,
       Progress 30, Progress 40, ReadFile ''file:///cache/first.jpg''])"
proof -
  have r: "env_readAsString (sampleEnv (sampleCodec 800 600) (replicate 13981016 CHR ''A'') 0)
             (fst (fst (compressionStage (sampleEnv (sampleCodec 800 600) (replicate 13981016 CHR ''A'') 0)
                ''file:///photo.jpg'' sampleOptions))) = Inr (replicate 13981016 CHR ''A'')"
    by (simp add: sampleEnv_def)
  have s: "of_nat (length (replicate 13981016 CHR ''A'')) * 3 / 4 > maxSizeBytes"
    by (simp add: maxSizeBytes_def)
  show ?thesis
    using oversized_run [OF r s] by (simp add: sample_compressionStage)
qed


lemma options_compress_irrelevant:
  "optBucket (options\<lparr>opt_compress := c\<rparr>) = optBucket options"
  "optMaxRetries (options\<lparr>opt_compress := c\<rparr>) = optMaxRetries options"
  "storagePathOf env (options\<lparr>opt_compress := c\<rparr>) ext = storagePathOf env options ext"
  by (simp_all add: optBucket_def optMaxRetries_def storagePathOf_def)

lemma readAndCheck_compress_irrelevant:
  "readAndCheck env (options\<lparr>opt_compress := c\<rparr>) p = readAndCheck env options p"
  by (simp add: readAndCheck_def Let_def cong: sum.case_cong if_cong)

lemma transfer_compress_irrelevant:
  "transfer env (options\<lparr>opt_compress := c\<rparr>) p w base64 s = transfer env options p w base64 s"
  by (simp add: transfer_def Let_def options_compress_irrelevant
      cong: sum.case_cong query_result.case_cong option.case_cong if_cong)

lemma uploadStages_compress_irrelevant:
  "uploadStages env (options\<lparr>opt_compress := c\<rparr>) p w = uploadStages env options p w"
  by (simp add: uploadStages_def readAndCheck_compress_irrelevant transfer_compress_irrelevant
      cong: sum.case_cong prod.case_cong)

lemma transfer_compressed:
  "fst (transfer env options p w base64 s) = Inr r \<Longrightarrow> compressed r = w"
  by (auto simp: transfer_def Let_def split: sum.splits query_result.splits option.splits if_splits)

lemma uploadStages_compressed:
  "fst (uploadStages env options p w) = Inr r \<Longrightarrow> compressed r = w"
  by (auto simp: uploadStages_def Let_def split: sum.splits prod.splits dest: transfer_compressed)

lemma uploadImageToSupabase_stages:
  "fst (uploadImageToSupabase env u options) =
     fst (uploadStages env options (fst (fst (compressionStage env u options)))
            (snd (fst (compressionStage env u options))))"
  by (simp add: uploadImageToSupabase_def Let_def preValidation_passes)

text \<open>
  C4. When compression is enabled and \<open>compressImage\<close> throws, the compression step
  continues with the original reference and \<^verbatim>\<open>wasCompressed = false\<close>; the outcome of
  the pipeline is the outcome of the remaining stages on the original reference, which
  is also the outcome of the same run with compression disabled; and a result, when
  there is one, has \<open>compressed = False\<close>.
\<close>

theorem compression_failure_recovered:
  assumes "optCompress options"
    and "fst (compressImage (env_codec env) u pipelineProfile) = Inl e"
  shows "fst (compressionStage env u options) = (u, False)
         \<and> fst (uploadImageToSupabase env u options) = fst (uploadStages env options u False)
         \<and> fst (uploadImageToSupabase env u options)
             = fst (uploadImageToSupabase env u (options\<lparr>opt_compress := Some False\<rparr>))
         \<and> (\<forall>r. fst (uploadImageToSupabase env u options) = Inr r \<longrightarrow> \<not> compressed r)"
proof -
  have stage: "fst (compressionStage env u options) = (u, False)"
    using assms by (simp add: compressionStage_def)
  have off: "fst (compressionStage env u (options\<lparr>opt_compress := Some False\<rparr>)) = (u, False)"
    by (simp add: compressionStage_def optCompress_def)
  have run: "fst (uploadImageToSupabase env u options) = fst (uploadStages env options u False)"
    by (simp add: uploadImageToSupabase_stages stage)
  have same: "fst (uploadImageToSupabase env u (options\<lparr>opt_compress := Some False\<rparr>))
                = fst (uploadStages env options u False)"
    by (simp add: uploadImageToSupabase_stages off uploadStages_compress_irrelevant)
  have flag: "\<forall>r. fst (uploadImageToSupabase env u options) = Inr r \<longrightarrow> \<not> compressed r"
    using uploadStages_compressed [of env options u False] by (simp add: run)
  from stage run same flag show ?thesis by simp
qed

lemma showNat_42: "showNat 42 = ''42''"
  by code_simp

lemma sample_path:
  "storagePathOf (sampleEnv cdc b k) sampleOptions ''jpg'' = ''u1/photo-42.jpg''"
  by (simp add: storagePathOf_def Let_def sampleEnv_def sampleOptions_def sanitizeChar_def showNat_42)

lemma sample_bytes: "bytesOfBinaryString [255, 216] = [255, 216]"
  by (simp add: bytesOfBinaryString_map)

lemma sample_ext: "extractExtensionFromUri ''file:///photo.jpg'' = ''jpg''"
  by (simp add: extractExtensionFromUri_def Let_def pop_def toLowerCase_def toLowerCaseChar_def
      validExtensions_def)

lemma sample_mime: "getMimeType ''jpg'' = ''image/jpeg''"
  by (simp add: getMimeType_def toLowerCase_def toLowerCaseChar_def)

lemma sample_readAndCheck:
  "readAndCheck (sampleEnv cdc ''/9j/'' k) sampleOptions ''file:///photo.jpg'' =
     (Inr (''/9j/'', 3),
      [Progress 40, ReadFile ''file:///photo.jpg'', LedgerRead ''u1'', Progress 50])"
  by (simp add: readAndCheck_def Let_def sample_ext sample_mime sampleEnv_def sampleOptions_def
      validateImageFile_def allowedFormats_def allowedMimeTypes_def toLowerCase_def
      toLowerCaseChar_def maxSizeBytes_def checkStorageLimit_def usage_ledgerWith
      MAX_FILE_SIZE_BYTES_def MAX_TOTAL_STORAGE_BYTES_def)

lemma sample_upload_once:
  "uploadWithRetry (failingFirst 0) ''storage-images'' ''u1/photo-42.jpg'' [255, 216] ''image/jpeg'' 3 =
     (Inr (Some ''u1/photo-42.jpg''),
      [Progress (1 / 6),
       Upload \<lparr>bucket = ''storage-images'', path = ''u1/photo-42.jpg'', body = [255, 216],
               contentType = ''image/jpeg'', upsert = False\<rparr>,
       Progress 1])"
  by (simp add: uploadWithRetry_def uploadLoop.simps attemptUpload_def failingFirst_def)

lemma sample_upload_twice:
  "uploadWithRetry (failingFirst (Suc 0)) ''storage-images'' ''u1/photo-42.jpg'' [255, 216] ''image/jpeg'' 3 =
     (Inr (Some ''u1/photo-42.jpg''),
      [Progress (1 / 6),
       Upload \<lparr>bucket = ''storage-images'', path = ''u1/photo-42.jpg'', body = [255, 216],
               contentType = ''image/jpeg'', upsert = False\<rparr>,
       Sleep 1000,
       Progress (1 / 2),
       Upload \<lparr>bucket = ''storage-images'', path = ''u1/photo-42.jpg'', body = [255, 216],
               contentType = ''image/jpeg'', upsert = False\<rparr>,
       Progress 1])"
  by (simp add: uploadWithRetry_def uploadLoop.simps attemptUpload_def failingFirst_def
      backoffDelay_def)

lemma sample_transfer_once:
  "transfer (sampleEnv cdc ''/9j/'' 0) sampleOptions ''file:///photo.jpg'' w ''/9j/'' 3 =
     (Inr \<lparr>url = ''https://store/u1/photo-42.jpg'', sizeBytes = 3, compressed = w\<rparr>,
      [Decode, Progress 60, Progress (60 + 1 / 20),
       Upload \<lparr>bucket = ''storage-images'', path = ''u1/photo-42.jpg'', body = [255, 216],
               contentType = ''image/jpeg'', upsert = False\<rparr>,
       Progress (60 + 3 / 10), Progress 90,
       SignUrl ''storage-images'' ''u1/photo-42.jpg'' 86400, Progress 100])"
proof -
  have env: "env_store (sampleEnv cdc ''/9j/'' 0) = failingFirst 0"
    "env_base64Decode (sampleEnv cdc ''/9j/'' 0) ''/9j/'' = Inr [255, 216]"
    "env_createSignedUrl (sampleEnv cdc ''/9j/'' 0) ''storage-images'' ''u1/photo-42.jpg'' 86400
       = Response (Some ''https://store/u1/photo-42.jpg'') None"
    "optBucket sampleOptions = ''storage-images''" "optMaxRetries sampleOptions = 3"
    by (simp_all add: sampleEnv_def sampleOptions_def optBucket_def optMaxRetries_def)
  show ?thesis
    by (simp add: transfer_def Let_def sample_ext sample_mime sample_path decodeToBytes_def
        sample_bytes env sample_upload_once retryProgress_def)
qed

lemma sample_corrupt: "fst (compressImage corruptCodec u pipelineProfile) = Inl ''Image processing failed: corrupt image''"
  by (simp add: compressImage_def Let_def corruptCodec_def)

text \<open>
  The scenario of the specification: the codec rejects a corrupt image, every later
  stage succeeds, and the result is not marked compressed.
\<close>

theorem compression_failure_recovered_witness:
  "optCompress sampleOptions
   \<and> fst (compressImage (env_codec (sampleEnv corruptCodec ''/9j/'' 0)) ''file:///photo.jpg''
            pipelineProfile) = Inl ''Image processing failed: corrupt image''
   \<and> fst (uploadImageToSupabase (sampleEnv corruptCodec ''/9j/'' 0) ''file:///photo.jpg''
            sampleOptions)
       = Inr \<lparr>url = ''https://store/u1/photo-42.jpg'', sizeBytes = 3, compressed = False\<rparr>
   \<and> \<not> compressed \<lparr>url = ''https://store/u1/photo-42.jpg'', sizeBytes = 3, compressed = False\<rparr>"
proof -
  have a: "optCompress sampleOptions" by (simp add: optCompress_def sampleOptions_def)
  have b: "fst (compressImage (env_codec (sampleEnv corruptCodec ''/9j/'' 0)) ''file:///photo.jpg''
            pipelineProfile) = Inl ''Image processing failed: corrupt image''"
    by (simp add: sampleEnv_def sample_corrupt)
  note rec = compression_failure_recovered [OF a b]
  have stages: "fst (uploadStages (sampleEnv corruptCodec ''/9j/'' 0) sampleOptions
                  ''file:///photo.jpg'' False)
     = Inr \<lparr>url = ''https://store/u1/photo-42.jpg'', sizeBytes = 3, compressed = False\<rparr>"
    by (simp add: uploadStages_def sample_readAndCheck sample_transfer_once)
  have run: "fst (uploadImageToSupabase (sampleEnv corruptCodec ''/9j/'' 0) ''file:///photo.jpg''
            sampleOptions)
       = Inr \<lparr>url = ''https://store/u1/photo-42.jpg'', sizeBytes = 3, compressed = False\<rparr>"
    using rec [THEN conjunct2, THEN conjunct1] stages by simp
  from rec [THEN conjunct2, THEN conjunct2, THEN conjunct2, THEN spec, THEN mp, OF run] a b run
  show ?thesis by blast
qed


lemma storeCalls_uploadLoop:
  "\<exists>n. storeCalls (snd (uploadLoop store req m a le)) = replicate n req"
proof (induction store req m a le rule: uploadLoop.induct)
  case (1 store req m a le)
  show ?case
  proof (cases "int a < m")
    case False
    then have "storeCalls (snd (uploadLoop store req m a le)) = replicate 0 req"
      by (simp add: uploadLoop.simps [of store req m a] storeCalls_simps)
    then show ?thesis by blast
  next
    case True
    show ?thesis
    proof (cases "attemptUpload (store a req)")
      case (Inr d)
      then have "storeCalls (snd (uploadLoop store req m a le)) = replicate 1 req"
        using True by (simp add: uploadLoop.simps [of store req m a] storeCalls_simps)
      then show ?thesis by blast
    next
      case (Inl msg)
      from "1.IH" [OF True Inl] obtain n where
        n: "storeCalls (snd (uploadLoop store req m (Suc a) (Some msg))) = replicate n req"
        by blast
      have "storeCalls (snd (uploadLoop store req m a le)) = replicate (Suc n) req"
        using True Inl n
        by (simp add: uploadLoop.simps [of store req m a] storeCalls_simps storeCalls_Cons Let_def)
      then show ?thesis by blast
    qed
  qed
qed

lemma storeCalls_retryProgress: "storeCalls (map retryProgress evs) = storeCalls evs"
proof (induction evs)
  case Nil
  show ?case by simp
next
  case (Cons e evs)
  then show ?case
    by (cases e) (simp_all add: storeCalls_Cons retryProgress_def)
qed

lemma storeCalls_readAndCheck: "storeCalls (snd (readAndCheck env options p)) = []"
  by (auto simp: readAndCheck_def Let_def storeCalls_Cons storeCalls_simps split: sum.splits)

lemma storeCalls_transfer:
  "\<exists>n dat. storeCalls (snd (transfer env options p w base64 s)) =
     replicate n \<lparr>bucket = optBucket options,
                  path = storagePathOf env options (extractExtensionFromUri p),
                  body = dat,
                  contentType = getMimeType (extractExtensionFromUri p),
                  upsert = False\<rparr>"
proof (cases "decodeToBytes (env_base64Decode env) base64")
  case (Inl err)
  then have "storeCalls (snd (transfer env options p w base64 s)) =
     replicate 0 \<lparr>bucket = optBucket options,
                  path = storagePathOf env options (extractExtensionFromUri p),
                  body = [],
                  contentType = getMimeType (extractExtensionFromUri p),
                  upsert = False\<rparr>"
    by (simp add: transfer_def Let_def storeCalls_Cons storeCalls_simps)
  then show ?thesis by blast
next
  case (Inr bytes)
  let ?req = "\<lparr>bucket = optBucket options,
                  path = storagePathOf env options (extractExtensionFromUri p),
                  body = bytes,
                  contentType = getMimeType (extractExtensionFromUri p),
                  upsert = False\<rparr>"
  let ?sent = "uploadWithRetry (env_store env) (optBucket options)
                 (storagePathOf env options (extractExtensionFromUri p)) bytes
                 (getMimeType (extractExtensionFromUri p)) (optMaxRetries options)"
  obtain n where n: "storeCalls (snd ?sent) = replicate n ?req"
    unfolding uploadWithRetry_def using storeCalls_uploadLoop by blast
  have "storeCalls (snd (transfer env options p w base64 s)) = storeCalls (snd ?sent)"
    using Inr
    by (auto simp: transfer_def Let_def storeCalls_Cons storeCalls_simps storeCalls_retryProgress
        split: sum.splits query_result.splits option.splits)
  with n show ?thesis by metis
qed

text \<open>
  C9, as the code has it. All store calls of a run are copies of one request: the bucket,
  the destination path (computed once from the options, the extension and the clock,
  before the retry loop), the byte buffer and the content type are the same in every
  attempt, and every attempt is sent with \<^verbatim>\<open>upsert: false\<close>, so a retry never asks the
  store to overwrite.
\<close>

theorem retries_repeat_one_request:
  "\<exists>n dat. storeCalls (snd (uploadImageToSupabase env u options)) =
     replicate n
       \<lparr>bucket = optBucket options,
        path = storagePathOf env options
                 (extractExtensionFromUri (fst (fst (compressionStage env u options)))),
        body = dat,
        contentType = getMimeType
                 (extractExtensionFromUri (fst (fst (compressionStage env u options)))),
        upsert = False\<rparr>"
proof -
  let ?p = "fst (fst (compressionStage env u options))"
  let ?w = "snd (fst (compressionStage env u options))"
  have run: "storeCalls (snd (uploadImageToSupabase env u options))
               = storeCalls (snd (uploadStages env options ?p ?w))"
    by (simp add: uploadImageToSupabase_def Let_def preValidation_passes storeCalls_Cons
        storeCalls_simps compressionStage_events)
  show ?thesis
  proof (cases "fst (readAndCheck env options ?p)")
    case (Inl err)
    then have "storeCalls (snd (uploadImageToSupabase env u options)) =
      replicate 0 \<lparr>bucket = optBucket options,
        path = storagePathOf env options (extractExtensionFromUri ?p),
        body = [],
        contentType = getMimeType (extractExtensionFromUri ?p),
        upsert = False\<rparr>"
      by (simp add: run uploadStages_def storeCalls_readAndCheck)
    then show ?thesis by blast
  next
    case (Inr read)
    obtain base64 s where read: "read = (base64, s)" by (cases read)
    have "storeCalls (snd (uploadImageToSupabase env u options))
            = storeCalls (snd (transfer env options ?p ?w base64 s))"
      using Inr read
      by (simp add: run uploadStages_def Let_def storeCalls_readAndCheck storeCalls_simps)
    then show ?thesis using storeCalls_transfer [of env options ?p ?w base64 s] by simp
  qed
qed

lemma sample_corrupt_stage:
  "compressionStage (sampleEnv corruptCodec b k) ''file:///photo.jpg'' sampleOptions =
      ((''file:///photo.jpg'', False),
       [Manipulate \<lparr>source = ''file:///photo.jpg'', actions = [], compress = 8 / 10\<rparr>,
        Progress 30])"
  by (simp add: compressionStage_def sampleEnv_def sampleOptions_def optCompress_def
      compressImage_def Let_def corruptCodec_def pipelineProfile_def optQuality_def)

text \<open>
  In the example run every store call goes to \<open>u1/photo-42.jpg\<close> in the default
  bucket, as a JPEG, without upsert.
\<close>

theorem retries_repeat_one_request_witness:
  "\<exists>n dat. storeCalls (snd (uploadImageToSupabase (sampleEnv corruptCodec ''/9j/'' (Suc 0))
                      ''file:///photo.jpg'' sampleOptions)) =
     replicate n \<lparr>bucket = ''storage-images'', path = ''u1/photo-42.jpg'', body = dat,
                  contentType = ''image/jpeg'', upsert = False\<rparr>"
proof -
  have b: "optBucket sampleOptions = ''storage-images''"
    by (simp add: optBucket_def sampleOptions_def)
  from retries_repeat_one_request [of "sampleEnv corruptCodec ''/9j/'' (Suc 0)"
      "''file:///photo.jpg''" sampleOptions]
  show ?thesis
    by (simp add: sample_corrupt_stage sample_ext sample_mime sample_path b)
qed

lemma sample_transfer_twice:
  "snd (transfer (sampleEnv cdc ''/9j/'' (Suc 0)) sampleOptions ''file:///photo.jpg'' w ''/9j/'' 3) =
      [Decode, Progress 60, Progress (60 + 1 / 20),
       Upload \<lparr>bucket = ''storage-images'', path = ''u1/photo-42.jpg'', body = [255, 216],
               contentType = ''image/jpeg'', upsert = False\<rparr>,
       Sleep 1000,
       Progress (60 + 3 / 20),
       Upload \<lparr>bucket = ''storage-images'', path = ''u1/photo-42.jpg'', body = [255, 216],
               contentType = ''image/jpeg'', upsert = False\<rparr>,
       Progress (60 + 3 / 10), Progress 90,
       SignUrl ''storage-images'' ''u1/photo-42.jpg'' 86400, Progress 100]"
proof -
  have env: "env_store (sampleEnv cdc ''/9j/'' (Suc 0)) = failingFirst (Suc 0)"
    "env_base64Decode (sampleEnv cdc ''/9j/'' (Suc 0)) ''/9j/'' = Inr [255, 216]"
    "env_createSignedUrl (sampleEnv cdc ''/9j/'' (Suc 0)) ''storage-images'' ''u1/photo-42.jpg'' 86400
       = Response (Some ''https://store/u1/photo-42.jpg'') None"
    "optBucket sampleOptions = ''storage-images''" "optMaxRetries sampleOptions = 3"
    by (simp_all add: sampleEnv_def sampleOptions_def optBucket_def optMaxRetries_def)
  show ?thesis
    by (simp add: transfer_def Let_def sample_ext sample_mime sample_path decodeToBytes_def
        sample_bytes env sample_upload_twice retryProgress_def)
qed

text \<open>
  C9 as stated fails in its last part: in a run whose first attempt fails, the retry is
  the same request as the first attempt, and both are sent with \<^verbatim>\<open>upsert: false\<close>; it
  is not an overwrite of the target.
\<close>

theorem retry_without_upsert_counterexample:
  "storeCalls (snd (uploadImageToSupabase (sampleEnv corruptCodec ''/9j/'' (Suc 0))
                      ''file:///photo.jpg'' sampleOptions)) =
     [\<lparr>bucket = ''storage-images'', path = ''u1/photo-42.jpg'', body = [255, 216],
       contentType = ''image/jpeg'', upsert = False\<rparr>,
      \<lparr>bucket = ''storage-images'', path = ''u1/photo-42.jpg'', body = [255, 216],
       contentType = ''image/jpeg'', upsert = False\<rparr>]
   \<and> map upsert (storeCalls (snd (uploadImageToSupabase (sampleEnv corruptCodec ''/9j/'' (Suc 0))
                      ''file:///photo.jpg'' sampleOptions))) = [False, False]"
proof -
  note stage = sample_corrupt_stage [of "''/9j/''" "Suc 0"]
  have "storeCalls (snd (uploadImageToSupabase (sampleEnv corruptCodec ''/9j/'' (Suc 0))
                      ''file:///photo.jpg'' sampleOptions)) =
     [\<lparr>bucket = ''storage-images'', path = ''u1/photo-42.jpg'', body = [255, 216],
       contentType = ''image/jpeg'', upsert = False\<rparr>,
      \<lparr>bucket = ''storage-images'', path = ''u1/photo-42.jpg'', body = [255, 216],
       contentType = ''image/jpeg'', upsert = False\<rparr>]"
    by (simp add: uploadImageToSupabase_def Let_def preValidation_passes stage uploadStages_def
        sample_readAndCheck sample_transfer_twice storeCalls_Cons storeCalls_simps)
  then show ?thesis by simp
qed

end
